theory Spec2Isabelle
  imports Main "HOL-Library.AList" "HOL-Library.Multiset"
begin

section \<open>Data model\<close>

text \<open>
  A shallow embedding of the \<open>Site\<close> class (the later of the two revisions of
  \<open>site.ts\<close>): the entry index, the slug allocator, the publish pipeline, the
  regeneration of the derived views, the scan and the webmention receiver.

  Exceptions are values: JavaScript's \<open>Error\<close> and the \<open>util.BadRequest\<close> class.
\<close>

datatype error = Error string | BadRequest string

text \<open>
  A \<open>Date\<close>, by the four readings the code takes of it. \<open>getMonth\<close> is zero-based,
  as in JavaScript.
\<close>

record date =
  getFullYear :: nat
  getMonth :: nat
  getDate :: nat
  getTime :: int

text \<open>
  \<open>mfo.Entry\<close>, with the fields \<open>site.ts\<close> reads or writes. \<open>content\<close> is the pair
  \<open>content_value\<close>, \<open>content_html\<close>; \<open>author\<close> is the card's name; \<open>embed\<close> is
  the \<open>html\<close> of the embed, \<open>None\<close> for \<open>null\<close>.
\<close>

datatype entry = Entry
  (url: string)
  (name: string)
  (published: date)
  (content_value: string)
  (content_html: string)
  (author: string)
  (replyTo: "entry list")
  (likeOf: "entry list")
  (repostOf: "entry list")
  (category: "string list")
  (syndication: "string list")
  (syndicateTo: "string list option")
  (embed: "string option")
  (children: "entry list")

fun set_content_html :: "string \<Rightarrow> entry \<Rightarrow> entry" where
  "set_content_html h (Entry u n p cv ch a r l rp c sy st e k) =
     Entry u n p cv h a r l rp c sy st e k"

fun set_embed :: "string option \<Rightarrow> entry \<Rightarrow> entry" where
  "set_embed e' (Entry u n p cv ch a r l rp c sy st e k) =
     Entry u n p cv ch a r l rp c sy st e' k"

fun set_syndication :: "string list \<Rightarrow> entry \<Rightarrow> entry" where
  "set_syndication sy' (Entry u n p cv ch a r l rp c sy st e k) =
     Entry u n p cv ch a r l rp c sy' st e k"

text \<open>
  \<open>Entry.addChild\<close>: the children are kept by URL, in the order they came. A child
  whose URL is among them already takes the place of the old one; any other child goes
  to the end.
\<close>

fun addChild :: "entry \<Rightarrow> entry \<Rightarrow> entry" where
  "addChild child (Entry u n p cv ch a r l rp c sy st e k) =
     Entry u n p cv ch a r l rp c sy st e
       (if list_ex (\<lambda>c. url c = url child) k
        then map (\<lambda>c. if url c = url child then child else c) k
        else k @ [child])"

text \<open>
  What the store holds. The four templates are not interpreted: a rendered page is the
  template applied to the arguments the code passes it, so that the entries a page
  lists can be read back. \<open>File\<close> is the stream of an uploaded file, \<open>Other\<close> any
  other content.
\<close>

datatype body =
    EntryPage entry
  | StreamPage "entry list" nat nat
  | ReplyStreamPage "entry list" nat nat
  | IndexPage string "entry list"
  | File string
  | Other string

record obj =
  Body :: body
  ContentType :: string

definition renderEntry :: "entry \<Rightarrow> body" where
  "renderEntry e = EntryPage e"

text \<open>
  The \<open>Micropub\<close> submission. \<open>content\<close> is a string or \<open>{html}\<close>; \<open>category\<close>,
  \<open>syndication\<close> and \<open>syndicateTo\<close> are a string or a list of strings; a missing
  field is \<open>None\<close>.
\<close>

datatype content = Text string | Html string

datatype strings = One string | Many "string list"

record upload =
  filename :: string
  tmpfile :: string
  mimetype :: string

record micropub =
  m_name :: "string option"
  m_content :: "content option"
  m_replyTo :: "string option"
  m_likeOf :: "string option"
  m_repostOf :: "string option"
  m_category :: "strings option"
  m_syndication :: "strings option"
  m_photo :: "upload option"
  m_audio :: "upload option"
  m_syndicateTo :: "strings option"

section \<open>Collaborators\<close>

text \<open>
  The code outside \<open>site.ts\<close> is a parameter of the model, so that every theorem
  holds for whatever these functions compute: the configuration, the \<open>mf-obj\<close>
  library, the helpers of \<open>util\<close>, \<open>path\<close> and \<open>url\<close>, and the network services. A
  call that may reject returns a sum, \<open>Inl\<close> the exception. The last five fields say
  which calls of the content store fail.
\<close>

record SiteConfig =
  site_url :: string
  author_name :: string
  entriesPerPage :: nat

record codec =
  getEntry :: "string \<Rightarrow> string list \<Rightarrow> error + entry"
  getEntryFromHtml :: "body \<Rightarrow> string \<Rightarrow> error + entry option"
  getMentions :: "entry \<Rightarrow> string list"
  getPath :: "entry \<Rightarrow> string"
  isReply :: "entry \<Rightarrow> bool"
  isLike :: "entry \<Rightarrow> bool"
  isArticle :: "entry \<Rightarrow> bool"

record helpers =
  kebabCase :: "string \<Rightarrow> string"
  autoLink :: "string \<Rightarrow> string"
  escapeHtml :: "string \<Rightarrow> string"
  stripHtml :: "string \<Rightarrow> string"
  collapse :: "string \<Rightarrow> string"
  truncate_text :: "string \<Rightarrow> nat \<Rightarrow> string"
  path_join :: "string \<Rightarrow> string \<Rightarrow> string"
  path_dirname :: "string \<Rightarrow> string"
  url_resolve :: "string \<Rightarrow> string \<Rightarrow> string"
  url_pathname :: "string \<Rightarrow> string"

record services =
  oembed :: "string \<Rightarrow> error + string"
  syndicate :: "entry \<Rightarrow> error + string list"
  sendWebmention :: "string \<Rightarrow> string \<Rightarrow> error + unit"
  put_fails :: "string \<Rightarrow> bool"
  get_fails :: "string \<Rightarrow> bool"
  exists_fails :: "string \<Rightarrow> bool"
  list_fails :: bool
  commit_fails :: bool

record env =
  config :: SiteConfig
  mfo :: codec
  util :: helpers
  net :: services

section \<open>State and sequencing\<close>

text \<open>
  Modelled from the spec: the content store (\<open>publisher\<close>), of which \<open>site.ts\<close> has
  only the calls. It is a key/value store with \<open>list\<close>, \<open>get\<close>, \<open>put\<close>, \<open>exists\<close>
  and \<open>commit\<close>. \<open>objects\<close> is the sequence of the writes, oldest first: the value of a
  key is its last write. \<open>commits\<close> are the messages of the commits.
\<close>

record publisher =
  objects :: "(string \<times> obj) list"
  commits :: "string list"

text \<open>
  The site: \<open>entries\<close> is the \<open>Map\<close> from URL to entry in insertion order (\<open>set\<close> on
  a key it has replaces the value in place, on a new key appends), \<open>store\<close> is
  the state of \<open>this.publisher\<close>.
\<close>

record site =
  entries :: "(string \<times> entry) list"
  store :: publisher

text \<open>
  An asynchronous method is a function from the state to a result and the state it
  leaves. \<open>await\<close> sequences two of them and stops at an exception, keeping the state
  reached.
\<close>

definition await ::
  "('s \<Rightarrow> (error + 'a) \<times> 's) \<Rightarrow> ('a \<Rightarrow> 's \<Rightarrow> (error + 'b) \<times> 's) \<Rightarrow> 's \<Rightarrow> (error + 'b) \<times> 's" where
  "await m f s = (case m s of (Inl e, s') \<Rightarrow> (Inl e, s') | (Inr x, s') \<Rightarrow> f x s')"

definition return :: "'a \<Rightarrow> 's \<Rightarrow> (error + 'a) \<times> 's" where
  "return x s = (Inr x, s)"

definition lift :: "error + 'a \<Rightarrow> 's \<Rightarrow> (error + 'a) \<times> 's" where
  "lift r s = (r, s)"

definition on_store ::
  "(publisher \<Rightarrow> (error + 'a) \<times> publisher) \<Rightarrow> site \<Rightarrow> (error + 'a) \<times> site" where
  "on_store f s = (case f (store s) of (r, p) \<Rightarrow> (r, s\<lparr>store := p\<rparr>))"

text \<open>
  Modelled from the spec: \<open>util.map\<close>, which starts the callback on every element
  (as \<open>Promise.all\<close> over \<open>Array.map\<close> does) and rejects when one of them rejects.
  A failed call does not stop the ones after it; the exception kept is the first in
  list order.
\<close>

fun util_map ::
  "('a \<Rightarrow> 's \<Rightarrow> (error + 'b) \<times> 's) \<Rightarrow> 'a list \<Rightarrow> 's \<Rightarrow> (error + 'b list) \<times> 's" where
  "util_map f [] s = (Inr [], s)"
| "util_map f (x # xs) s =
     (case f x s of (r, s1) \<Rightarrow>
        (case util_map f xs s1 of (rs, s2) \<Rightarrow>
           (case r of
              Inl e \<Rightarrow> (Inl e, s2)
            | Inr y \<Rightarrow> (case rs of Inl e \<Rightarrow> (Inl e, s2) | Inr ys \<Rightarrow> (Inr (y # ys), s2)))))"

subsection \<open>The calls of the content store\<close>

text \<open>
  Modelled from the spec: the calls of the store, by the contract the spec gives them.
  \<open>exists\<close> says whether the key was written, \<open>get\<close> gives the last write of the
  key, \<open>list\<close> gives the keys, each once, \<open>put\<close> adds a write and \<open>commit\<close> records
  its message. A call fails where the environment says so, and then changes nothing.
\<close>

definition pub_exists :: "env \<Rightarrow> publisher \<Rightarrow> string \<Rightarrow> error + bool" where
  "pub_exists env p k =
     (if exists_fails (net env) k then Inl (Error ''exists'')
      else Inr (k \<in> set (map fst (objects p))))"

definition pub_put ::
  "env \<Rightarrow> string \<Rightarrow> body \<Rightarrow> string \<Rightarrow> publisher \<Rightarrow> (error + unit) \<times> publisher" where
  "pub_put env k b ct p =
     (if put_fails (net env) k then (Inl (Error ''put''), p)
      else (Inr (), p\<lparr>objects := objects p @ [(k, \<lparr>Body = b, ContentType = ct\<rparr>)]\<rparr>))"

definition pub_get :: "env \<Rightarrow> publisher \<Rightarrow> string \<Rightarrow> error + obj" where
  "pub_get env p k =
     (if get_fails (net env) k then Inl (Error ''get'')
      else (case map_of (rev (objects p)) k of
              None \<Rightarrow> Inl (Error ''get'')
            | Some ob \<Rightarrow> Inr ob))"

definition pub_list :: "env \<Rightarrow> publisher \<Rightarrow> error + string list" where
  "pub_list env p =
     (if list_fails (net env) then Inl (Error ''list'')
      else Inr (remdups (map fst (objects p))))"

definition pub_commit :: "env \<Rightarrow> string \<Rightarrow> publisher \<Rightarrow> (error + unit) \<times> publisher" where
  "pub_commit env msg p =
     (if commit_fails (net env) then (Inl (Error ''commit''), p)
      else (Inr (), p\<lparr>commits := commits p @ [msg]\<rparr>))"

section \<open>Slug allocation\<close>

text \<open>A number as JavaScript prints it when it is appended to a string.\<close>

definition digit_char :: "nat \<Rightarrow> char" where
  "digit_char d = ''0123456789'' ! d"

function string_of_nat :: "nat \<Rightarrow> string" where
  "string_of_nat n =
     (if n < 10 then [digit_char n] else string_of_nat (n div 10) @ [digit_char (n mod 10)])"
  by pat_completeness auto
termination
  by (relation "measure id") auto

declare string_of_nat.simps [simp del]

text \<open>
  The variable \<open>n\<close> of \<open>getNextAvailable\<close>: \<open>getSlug\<close> passes the empty string or the
  number 1. \<open>prefix + n\<close> appends its text; \<open>n++\<close> turns the empty string into the
  number 0 and adds 1. \<open>n\<close> is a JavaScript number, a double: up to \<open>2^53\<close> adding 1 is
  exact, and at \<open>2^53\<close> the sum rounds back to \<open>2^53\<close>, so \<open>n++\<close> leaves \<open>n\<close> as it is.
  The model is of the counters up to \<open>js_limit\<close>, which \<open>exact\<close> recognises: they are
  all the loop reaches from the empty string or from a number up to \<open>2^53\<close>, and they
  print as the decimal digits of the integer. A number above \<open>2^53\<close> rounds and prints
  in other ways, and is not modelled.
\<close>

datatype counter = Blank | Num nat

definition js_limit :: nat where
  "js_limit = 9007199254740992"

fun counter_text :: "counter \<Rightarrow> string" where
  "counter_text Blank = []"
| "counter_text (Num k) = string_of_nat k"

fun incr :: "counter \<Rightarrow> counter" where
  "incr Blank = Num 1"
| "incr (Num k) = Num (if k < js_limit then k + 1 else k)"

fun exact :: "counter \<Rightarrow> bool" where
  "exact Blank = True"
| "exact (Num k) = (k \<le> js_limit)"

text \<open>
  The loop may run forever: \<open>None\<close> is not returning. \<open>ex\<close> is
  \<open>this.publisher.exists\<close>, whose exception leaves the loop.
\<close>

partial_function (option) getNextAvailable ::
  "(string \<Rightarrow> error + bool) \<Rightarrow> counter \<Rightarrow> string \<Rightarrow> (error + string) option" where
  "getNextAvailable ex n prefix =
     (case ex (prefix @ counter_text n) of
        Inl e \<Rightarrow> Some (Inl e)
      | Inr b \<Rightarrow>
          if b then getNextAvailable ex (incr n) prefix
          else Some (Inr (prefix @ counter_text n)))"

declare getNextAvailable.simps [code]

definition datepart :: "date \<Rightarrow> string" where
  "datepart d =
     ''/'' @ string_of_nat (getFullYear d) @ ''/'' @ string_of_nat (getMonth d + 1) @
     ''/'' @ string_of_nat (getDate d)"

definition getSlug :: "env \<Rightarrow> string option \<Rightarrow> date \<Rightarrow> publisher \<Rightarrow> (error + string) option" where
  "getSlug env nm d p =
     (case nm of
        Some n \<Rightarrow>
          getNextAvailable (pub_exists env p) Blank (datepart d @ ''/'' @ kebabCase (util env) n)
      | None \<Rightarrow> getNextAvailable (pub_exists env p) (Num 1) (datepart d @ ''/''))"

text \<open>
  The candidates in the order the loop probes them, from the counter \<open>n\<close>: the
  \<open>k\<close>-th is \<open>prefix + n\<close> after \<open>k\<close> increments.
\<close>

definition candidate :: "counter \<Rightarrow> string \<Rightarrow> nat \<Rightarrow> string" where
  "candidate n prefix k = prefix @ counter_text ((incr ^^ k) n)"

text \<open>
  The number of increments from the counter \<open>n\<close> to \<open>2^53\<close>, where the candidates stop
  changing: the candidates \<open>0\<close> to \<open>span n\<close> are all there are.
\<close>

fun span :: "counter \<Rightarrow> nat" where
  "span Blank = js_limit"
| "span (Num k) = js_limit - k"

section \<open>The entry index\<close>

definition get :: "site \<Rightarrow> string \<Rightarrow> error + entry" where
  "get s u =
     (case map_of (entries s) u of
        None \<Rightarrow> Inl (Error (u @ '' not found''))
      | Some e \<Rightarrow> Inr e)"

definition getAll :: "site \<Rightarrow> entry list" where
  "getAll s = map snd (entries s)"

section \<open>Regeneration of the derived views\<close>

text \<open>
  Modelled from the spec: \<open>util.chunk\<close> splits a list into chunks of a fixed size,
  the last one shorter when the length is not a multiple (the size is positive; the
  model gives no chunk for the size 0). \<open>util.range\<close> is the list of the integers
  from the first bound to the second, both included, empty when the second is below
  the first. \<open>util.flatten\<close> concatenates and \<open>util.unique\<close> keeps the first
  occurrence of every element.
\<close>

function util_chunk :: "nat \<Rightarrow> 'a list \<Rightarrow> 'a list list" where
  "util_chunk n xs = (if n = 0 \<or> xs = [] then [] else take n xs # util_chunk n (drop n xs))"
  by pat_completeness auto
termination
  by (relation "measure (\<lambda>(n, xs). length xs)") auto

declare util_chunk.simps [simp del]

definition util_range :: "int \<Rightarrow> int \<Rightarrow> int list" where
  "util_range lo hi = [lo..hi]"

definition util_flatten :: "'a list list \<Rightarrow> 'a list" where
  "util_flatten xss = concat xss"

definition util_unique :: "'a list \<Rightarrow> 'a list" where
  "util_unique xs = rev (remdups (rev xs))"

text \<open>
  Modelled from the spec: \<open>Array.sort\<close> with \<open>mfo.Entry.byDateDesc\<close> orders the
  entries by publish time, latest first, and keeps the order of entries of the same
  time.
\<close>

definition sortByDateDesc :: "entry list \<Rightarrow> entry list" where
  "sortByDateDesc es = sort_key (\<lambda>e. - getTime (published e)) es"

definition hiddenFilter :: "entry \<Rightarrow> bool" where
  "hiddenFilter e = (\<not> list_ex (\<lambda>c. c = ''hidden'') (category e))"

definition mainFilter :: "env \<Rightarrow> entry \<Rightarrow> bool" where
  "mainFilter env e = (\<not> isReply (mfo env) e \<and> \<not> isLike (mfo env) e)"

definition replyFilter :: "env \<Rightarrow> entry \<Rightarrow> bool" where
  "replyFilter env e = (isReply (mfo env) e \<or> isLike (mfo env) e)"

definition articleFilter :: "env \<Rightarrow> entry \<Rightarrow> bool" where
  "articleFilter env e = isArticle (mfo env) e"

definition getArticles :: "env \<Rightarrow> site \<Rightarrow> entry list" where
  "getArticles env s =
     sortByDateDesc (filter hiddenFilter (filter (articleFilter env) (getAll s)))"

definition getPathForIndex :: "nat \<Rightarrow> string" where
  "getPathForIndex page = ''index'' @ (if page = 1 then [] else string_of_nat page)"

definition getPathForTag :: "env \<Rightarrow> string \<Rightarrow> string" where
  "getPathForTag env c = ''/tags/'' @ kebabCase (util env) c"

definition generateStream ::
  "env \<Rightarrow> entry list \<Rightarrow> nat \<Rightarrow> nat \<Rightarrow> site \<Rightarrow> (error + unit) \<times> site" where
  "generateStream env es page totalPages =
     on_store (pub_put env (getPathForIndex page) (StreamPage es page totalPages) ''text/html'')"

definition generateReplyStream ::
  "env \<Rightarrow> entry list \<Rightarrow> nat \<Rightarrow> nat \<Rightarrow> site \<Rightarrow> (error + unit) \<times> site" where
  "generateReplyStream env es page totalPages =
     on_store (pub_put env (path_join (util env) ''replies'' (getPathForIndex page))
       (ReplyStreamPage es page totalPages) ''text/html'')"

definition generateIndex ::
  "env \<Rightarrow> entry list \<Rightarrow> string \<Rightarrow> string \<Rightarrow> site \<Rightarrow> (error + unit) \<times> site" where
  "generateIndex env es cat path = on_store (pub_put env path (IndexPage cat es) ''text/html'')"

definition generateStreams :: "env \<Rightarrow> site \<Rightarrow> (error + unit) \<times> site" where
  "generateStreams env s =
     (let es = sortByDateDesc (getAll s);
          limit = entriesPerPage (config env);
          chunks = util_chunk limit (filter hiddenFilter (filter (mainFilter env) es));
          rchunks = util_chunk limit (filter hiddenFilter (filter (replyFilter env) es));
          tags = util_unique (util_flatten (map category es))
      in await
           (util_map
              (\<lambda>index. generateStream env (chunks ! nat index) (nat index + 1) (length chunks))
              (util_range 0 (int (length chunks) - 1)))
           (\<lambda>_. await
              (util_map
                 (\<lambda>index. generateReplyStream env (rchunks ! nat index) (nat index + 1)
                    (length rchunks))
                 (util_range 0 (int (length rchunks) - 1)))
              (\<lambda>_. await
                 (util_map
                    (\<lambda>tag. generateIndex env (filter (\<lambda>e. tag \<in> set (category e)) es)
                       (''Posts tagged '' @ tag) (getPathForTag env tag))
                    tags)
                 (\<lambda>_. generateIndex env (filter (isArticle (mfo env)) es) ''Articles''
                    ''/articles'')))
           s)"

definition update :: "env \<Rightarrow> entry \<Rightarrow> site \<Rightarrow> (error + entry) \<times> site" where
  "update env e =
     await (on_store (pub_put env (getPath (mfo env) e) (renderEntry e) ''text/html''))
       (\<lambda>_. await (\<lambda>s. (Inr (), s\<lparr>entries := AList.update (url e) e (entries s)\<rparr>))
          (\<lambda>_. await (generateStreams env) (\<lambda>_. return e)))"

section \<open>Webmentions\<close>

text \<open>Every delivery is tried; its exception is caught in the callback.\<close>

definition sendWebmentionsFor :: "env \<Rightarrow> entry \<Rightarrow> site \<Rightarrow> (error + unit) \<times> site" where
  "sendWebmentionsFor env e =
     await
       (util_map
          (\<lambda>link. lift (case sendWebmention (net env) (url e) link of
                          Inl err \<Rightarrow> Inr ()
                        | Inr _ \<Rightarrow> Inr ()))
          (getMentions (mfo env) e))
       (\<lambda>_. return ())"

definition webmentionMessage :: "env \<Rightarrow> entry \<Rightarrow> string \<Rightarrow> string \<Rightarrow> string" where
  "webmentionMessage env src sourceUrl targetUrl =
     truncate_text (util env) (''['' @ author src @ ''] '' @ collapse (util env) (name src)) 50 @
     [CHR 0x0A] @ sourceUrl @ '' -> '' @ targetUrl"

text \<open>
  \<open>targetEntry.addChild\<close> changes the object the index holds at \<open>targetUrl\<close>, so the
  index holds the entry with the child from there on.
\<close>

definition receiveWebmention :: "env \<Rightarrow> string \<Rightarrow> string \<Rightarrow> site \<Rightarrow> (error + unit) \<times> site" where
  "receiveWebmention env sourceUrl targetUrl s =
     (case get s targetUrl of
        Inl err \<Rightarrow> (Inl (BadRequest (''Target '' @ targetUrl @ '' not found'')), s)
      | Inr targetEntry \<Rightarrow>
          (case getEntry (mfo env) sourceUrl [] of
             Inl err \<Rightarrow> (Inl (BadRequest (''Source '' @ sourceUrl @ '' not found'')), s)
           | Inr sourceEntry \<Rightarrow>
               if \<not> list_ex (\<lambda>m. m = targetUrl) (getMentions (mfo env) sourceEntry)
               then (Inl (BadRequest (''Link to target '' @ targetUrl @ '' not found'')), s)
               else
                 await
                   (on_store (pub_put env
                      (url_pathname (util env) (url (addChild sourceEntry targetEntry)))
                      (renderEntry (addChild sourceEntry targetEntry)) ''text/html''))
                   (\<lambda>_. on_store (pub_commit env
                      (webmentionMessage env sourceEntry sourceUrl targetUrl)))
                   (s\<lparr>entries :=
                        AList.update targetUrl (addChild sourceEntry targetEntry) (entries s)\<rparr>)))"

section \<open>Scan\<close>

text \<open>The keys the regular expression \<open>/^(index|js|css|tags|articles|replies)/\<close> matches.\<close>

definition reserved :: "string \<Rightarrow> bool" where
  "reserved k =
     list_ex (\<lambda>p. take (length p) k = p)
       [''index'', ''js'', ''css'', ''tags'', ''articles'', ''replies'']"

text \<open>
  The callback of one key. It reads the store and adds to the local map \<open>acc\<close>; a
  failed parse is caught, a failed \<open>get\<close> is not.
\<close>

definition scanKey ::
  "env \<Rightarrow> publisher \<Rightarrow> string \<Rightarrow> (string \<times> entry) list \<Rightarrow> (error + unit) \<times> (string \<times> entry) list" where
  "scanKey env p key acc =
     (case pub_get env p key of
        Inl err \<Rightarrow> (Inl err, acc)
      | Inr ob \<Rightarrow>
          if ContentType ob = ''text/html'' then
            (let u = url_resolve (util env) (site_url (config env)) key in
             case getEntryFromHtml (mfo env) (Body ob) u of
               Inl err \<Rightarrow> (Inr (), acc)
             | Inr None \<Rightarrow> (Inr (), acc)
             | Inr (Some e) \<Rightarrow>
                 if url e = u \<or> url e @ ''.html'' = u
                 then (Inr (), AList.update (url e) e acc)
                 else (Inr (), acc))
          else (Inr (), acc))"

definition scan :: "env \<Rightarrow> site \<Rightarrow> (error + unit) \<times> site" where
  "scan env s =
     (case pub_list env (store s) of
        Inl err \<Rightarrow> (Inl err, s)
      | Inr keys \<Rightarrow>
          (case util_map (scanKey env (store s)) (filter (\<lambda>k. \<not> reserved k) keys) [] of
             (Inl err, acc) \<Rightarrow> (Inl err, s)
           | (Inr _, acc) \<Rightarrow> (Inr (), s\<lparr>entries := acc\<rparr>)))"

section \<open>The publish pipeline\<close>

text \<open>\<open>m.name || content\<close>: a missing or empty name gives way to the content.\<close>

definition orElse :: "string option \<Rightarrow> string \<Rightarrow> string" where
  "orElse nm c = (case nm of None \<Rightarrow> c | Some n \<Rightarrow> if n = [] then c else n)"

definition listOf :: "strings option \<Rightarrow> string list" where
  "listOf v = (case v of None \<Rightarrow> [] | Some (One c) \<Rightarrow> [c] | Some (Many cs) \<Rightarrow> cs)"

definition dq :: string where
  "dq = [CHR 0x22]"

definition strategies :: "string list" where
  "strategies = [''entry'', ''event'', ''oembed'']"

text \<open>
  The entry \<open>publish\<close> builds from the submission, the slug and the resolved
  references. A field the code leaves alone has the value of a new \<open>mfo.Entry\<close>: an
  empty list, also for \<open>syndicateTo\<close>, and \<open>null\<close> for \<open>embed\<close>.
\<close>

definition newEntry ::
  "env \<Rightarrow> date \<Rightarrow> micropub \<Rightarrow> string \<Rightarrow> entry list \<Rightarrow> entry list \<Rightarrow> entry list \<Rightarrow> entry" where
  "newEntry env now m slug r l rp =
     (let c = (case m_content m of None \<Rightarrow> Text [] | Some c' \<Rightarrow> c') in
      Entry
        (site_url (config env) @ slug)
        (case c of
           Text t \<Rightarrow> orElse (m_name m) t
         | Html h \<Rightarrow> orElse (m_name m) (stripHtml (util env) h))
        now
        (case c of Text t \<Rightarrow> t | Html h \<Rightarrow> stripHtml (util env) h)
        (case c of
           Text t \<Rightarrow>
             ''<div class='' @ dq @ ''note-content'' @ dq @ ''>'' @
             autoLink (util env) (escapeHtml (util env) t) @ ''</div>''
         | Html h \<Rightarrow> h)
        (author_name (config env))
        r l rp
        (listOf (m_category m))
        (listOf (m_syndication m))
        (Some (listOf (m_syndicateTo m)))
        None
        [])"

definition resolve :: "env \<Rightarrow> string option \<Rightarrow> error + entry list" where
  "resolve env target =
     (case target of
        None \<Rightarrow> Inr []
      | Some u \<Rightarrow> (case getEntry (mfo env) u strategies of Inl e \<Rightarrow> Inl e | Inr r \<Rightarrow> Inr [r]))"

definition photoHtml :: "upload \<Rightarrow> string \<Rightarrow> string" where
  "photoHtml f h =
     ''<div class='' @ dq @ ''thumbnail'' @ dq @ ''><img class='' @ dq @ ''u-photo'' @ dq @
     '' src='' @ dq @ filename f @ dq @ ''/>'' @
     ''<div class='' @ dq @ ''caption'' @ dq @ ''>'' @ h @ ''</div></div>''"

definition audioHtml :: "upload \<Rightarrow> string \<Rightarrow> string" where
  "audioHtml f h =
     ''<div class='' @ dq @ ''thumbnail'' @ dq @ ''><audio class='' @ dq @ ''u-audio'' @ dq @
     '' src='' @ dq @ filename f @ dq @ '' controls></audio>'' @
     ''<div class='' @ dq @ ''caption'' @ dq @ ''>'' @ h @ ''</div></div>''"

text \<open>
  An attached photo or audio: the content is wrapped and the file is written beside
  the entry.
\<close>

definition attach ::
  "env \<Rightarrow> string \<Rightarrow> upload option \<Rightarrow> (upload \<Rightarrow> string \<Rightarrow> string) \<Rightarrow> entry \<Rightarrow> site \<Rightarrow>
   (error + entry) \<times> site" where
  "attach env slug up wrap e =
     (case up of
        None \<Rightarrow> return e
      | Some f \<Rightarrow>
          await
            (on_store (pub_put env
               (path_join (util env) (path_dirname (util env) slug) (filename f))
               (File (tmpfile f)) (mimetype f)))
            (\<lambda>_. return (set_content_html (wrap f (content_html e)) e)))"

text \<open>The oEmbed loop: a lookup that fails is caught and the link is skipped.\<close>

fun embedAll :: "env \<Rightarrow> string list \<Rightarrow> entry \<Rightarrow> entry" where
  "embedAll env [] e = e"
| "embedAll env (link # links) e =
     embedAll env links
       (case oembed (net env) link of
          Inl err \<Rightarrow> e
        | Inr html \<Rightarrow>
            set_embed (Some ((case embed e of None \<Rightarrow> [] | Some h \<Rightarrow> h) @ html)) e)"

text \<open>
  The entry is rendered and parsed again. When the parser gives \<open>null\<close>, the call
  \<open>this.update(entry)\<close> that follows throws before it writes anything.
\<close>

definition reparse :: "env \<Rightarrow> entry \<Rightarrow> error + entry" where
  "reparse env e =
     (case getEntryFromHtml (mfo env) (renderEntry e) (url e) of
        Inl err \<Rightarrow> Inl err
      | Inr None \<Rightarrow> Inl (Error ''TypeError'')
      | Inr (Some e') \<Rightarrow> Inr e')"

text \<open>
  The first part of \<open>publish\<close>, up to the entry parsed from its own page: the slug,
  the references, the media and the embeds.
\<close>

definition prepare :: "env \<Rightarrow> date \<Rightarrow> micropub \<Rightarrow> site \<Rightarrow> ((error + entry) \<times> site) option" where
  "prepare env now m s =
     (case getSlug env (m_name m) now (store s) of
        None \<Rightarrow> None
      | Some (Inl e) \<Rightarrow> Some (Inl e, s)
      | Some (Inr slug) \<Rightarrow>
          Some
            (await (lift (resolve env (m_replyTo m)))
               (\<lambda>r. await (lift (resolve env (m_likeOf m)))
                  (\<lambda>l. await (lift (resolve env (m_repostOf m)))
                     (\<lambda>rp. await (attach env slug (m_photo m) photoHtml (newEntry env now m slug r l rp))
                        (\<lambda>e1. await (attach env slug (m_audio m) audioHtml e1)
                           (\<lambda>e2. lift (reparse env
                              (embedAll env (getMentions (mfo env) e2) e2)))))))
               s))"

definition commitMessage :: "env \<Rightarrow> entry \<Rightarrow> string" where
  "commitMessage env e =
     truncate_text (util env) (''['' @ author e @ ''] '' @ collapse (util env) (name e)) 50 @
     [CHR 0x0A] @ url e"

text \<open>
  The syndication step: the call of \<open>posse.syndicate\<close> stands in no \<open>try\<close>, and a
  second \<open>update\<close> stores the entry with the new syndication links.
\<close>

definition syndicateStep :: "env \<Rightarrow> entry \<Rightarrow> site \<Rightarrow> (error + entry) \<times> site" where
  "syndicateStep env e =
     (case syndicateTo e of
        None \<Rightarrow> return e
      | Some targets \<Rightarrow>
          await (lift (syndicate (net env) e))
            (\<lambda>syndications. update env (set_syndication (syndication e @ syndications) e)))"

text \<open>
  The second part of \<open>publish\<close>, from the first \<open>update\<close> on: the entry is stored
  and indexed and the views are regenerated, the syndication step runs, the store
  commits and the webmentions are sent.
\<close>

definition finish :: "env \<Rightarrow> entry \<Rightarrow> site \<Rightarrow> (error + entry) \<times> site" where
  "finish env e =
     await (update env e)
       (\<lambda>_. await (syndicateStep env e)
          (\<lambda>e'. await (on_store (pub_commit env (commitMessage env e')))
             (\<lambda>_. await (sendWebmentionsFor env e') (\<lambda>_. return e'))))"

text \<open>
  \<open>publish\<close>, at the time \<open>now\<close>. The lock is not modelled: the model runs one call
  at a time.
\<close>

definition publish :: "env \<Rightarrow> date \<Rightarrow> micropub \<Rightarrow> site \<Rightarrow> ((error + entry) \<times> site) option" where
  "publish env now m s =
     (case prepare env now m s of
        None \<Rightarrow> None
      | Some (Inl e, s1) \<Rightarrow> Some (Inl e, s1)
      | Some (Inr e, s1) \<Rightarrow> Some (finish env e s1))"

section \<open>Reading a run\<close>

text \<open>
  The store keeps its writes in order, so the objects a run wrote are the ones after
  those the store held before. \<open>page\<close> is an object as the site writes its HTML.
\<close>

definition written :: "site \<Rightarrow> site \<Rightarrow> (string \<times> obj) list" where
  "written s s' = drop (length (objects (store s))) (objects (store s'))"

definition page :: "string \<Rightarrow> body \<Rightarrow> string \<times> obj" where
  "page k b = (k, \<lparr>Body = b, ContentType = ''text/html''\<rparr>)"

definition keysOf :: "publisher \<Rightarrow> string set" where
  "keysOf p = set (map fst (objects p))"

definition add_objects :: "(string \<times> obj) list \<Rightarrow> site \<Rightarrow> site" where
  "add_objects ws s = s\<lparr>store := (store s)\<lparr>objects := objects (store s) @ ws\<rparr>\<rparr>"

definition committed :: "string \<Rightarrow> site \<Rightarrow> site" where
  "committed msg s = s\<lparr>store := (store s)\<lparr>commits := commits (store s) @ [msg]\<rparr>\<rparr>"

text \<open>
  The pages among a list of writes, in the order written: the main-stream pages and
  the reply-stream pages with their page numbers, the index pages (tag pages and the
  articles page) with their keys.
\<close>

fun streamPages :: "(string \<times> obj) list \<Rightarrow> (nat \<times> entry list) list" where
  "streamPages [] = []"
| "streamPages (w # ws) =
     (case Body (snd w) of
        StreamPage es p t \<Rightarrow> (p, es) # streamPages ws
      | _ \<Rightarrow> streamPages ws)"

fun replyPages :: "(string \<times> obj) list \<Rightarrow> (nat \<times> entry list) list" where
  "replyPages [] = []"
| "replyPages (w # ws) =
     (case Body (snd w) of
        ReplyStreamPage es p t \<Rightarrow> (p, es) # replyPages ws
      | _ \<Rightarrow> replyPages ws)"

fun indexPages :: "(string \<times> obj) list \<Rightarrow> (string \<times> entry list) list" where
  "indexPages [] = []"
| "indexPages (w # ws) =
     (case Body (snd w) of
        IndexPage c es \<Rightarrow> (fst w, es) # indexPages ws
      | _ \<Rightarrow> indexPages ws)"

text \<open>
  The object a list of writes leaves at a key is the last one written there.
  \<open>mainStream\<close> is the main stream as a reader pages through it, by key: the page at
  \<open>index\<close>, then the pages at \<open>index2\<close>, \<open>index3\<close> and so on, up to the first key that
  holds no stream page. A list of writes holds no more pages than it has writes, which
  bounds the walk.
\<close>

definition objectAt :: "(string \<times> obj) list \<Rightarrow> string \<Rightarrow> obj option" where
  "objectAt ws key = map_of (rev ws) key"

fun pagesFrom :: "(string \<times> obj) list \<Rightarrow> nat \<Rightarrow> nat \<Rightarrow> entry list list" where
  "pagesFrom ws p 0 = []"
| "pagesFrom ws p (Suc fuel) =
     (case objectAt ws (getPathForIndex p) of
        None \<Rightarrow> []
      | Some ob \<Rightarrow>
          (case Body ob of
             StreamPage es q t \<Rightarrow> es # pagesFrom ws (Suc p) fuel
           | _ \<Rightarrow> []))"

definition mainStream :: "(string \<times> obj) list \<Rightarrow> entry list list" where
  "mainStream ws = pagesFrom ws 1 (length ws)"

text \<open>
  The writes \<open>generateStreams\<close> issues, batch by batch, as lists: the proofs show that
  the function appends exactly these to the store, less the ones whose \<open>put\<close> fails.
\<close>

definition mainChunks :: "env \<Rightarrow> site \<Rightarrow> entry list list" where
  "mainChunks env s =
     util_chunk (entriesPerPage (config env))
       (filter hiddenFilter (filter (mainFilter env) (sortByDateDesc (getAll s))))"

definition replyChunks :: "env \<Rightarrow> site \<Rightarrow> entry list list" where
  "replyChunks env s =
     util_chunk (entriesPerPage (config env))
       (filter hiddenFilter (filter (replyFilter env) (sortByDateDesc (getAll s))))"

definition streamWrites :: "env \<Rightarrow> site \<Rightarrow> (string \<times> obj) list" where
  "streamWrites env s =
     map (\<lambda>i. page (getPathForIndex (i + 1))
                (StreamPage (mainChunks env s ! i) (i + 1) (length (mainChunks env s))))
       [0..<length (mainChunks env s)]"

definition replyWrites :: "env \<Rightarrow> site \<Rightarrow> (string \<times> obj) list" where
  "replyWrites env s =
     map (\<lambda>i. page (path_join (util env) ''replies'' (getPathForIndex (i + 1)))
                (ReplyStreamPage (replyChunks env s ! i) (i + 1) (length (replyChunks env s))))
       [0..<length (replyChunks env s)]"

definition tagWrites :: "env \<Rightarrow> site \<Rightarrow> (string \<times> obj) list" where
  "tagWrites env s =
     map (\<lambda>tag. page (getPathForTag env tag)
                  (IndexPage (''Posts tagged '' @ tag)
                     (filter (\<lambda>e. tag \<in> set (category e)) (sortByDateDesc (getAll s)))))
       (util_unique (util_flatten (map category (sortByDateDesc (getAll s)))))"

definition articlesWrite :: "env \<Rightarrow> site \<Rightarrow> string \<times> obj" where
  "articlesWrite env s =
     page ''/articles''
       (IndexPage ''Articles'' (filter (isArticle (mfo env)) (sortByDateDesc (getAll s))))"

definition regenerated :: "env \<Rightarrow> site \<Rightarrow> (string \<times> obj) list" where
  "regenerated env s =
     streamWrites env s @ replyWrites env s @ tagWrites env s @ [articlesWrite env s]"

text \<open>Of a batch of writes: the ones the store takes, and whether it refuses one.\<close>

definition accepted :: "env \<Rightarrow> (string \<times> obj) list \<Rightarrow> (string \<times> obj) list" where
  "accepted env ws = filter (\<lambda>w. \<not> put_fails (net env) (fst w)) ws"

definition rejects :: "env \<Rightarrow> (string \<times> obj) list \<Rightarrow> bool" where
  "rejects env ws = list_ex (\<lambda>w. put_fails (net env) (fst w)) ws"

text \<open>The site once \<open>update\<close> has written the page of an entry and put it in the index.\<close>

definition stored :: "env \<Rightarrow> entry \<Rightarrow> site \<Rightarrow> site" where
  "stored env e s =
     (add_objects [page (getPath (mfo env) e) (EntryPage e)] s)
       \<lparr>entries := AList.update (url e) e (entries s)\<rparr>"

text \<open>The site after \<open>update\<close>, when no write fails: the entry is stored and the views follow.\<close>

definition updated :: "env \<Rightarrow> entry \<Rightarrow> site \<Rightarrow> site" where
  "updated env e s = add_objects (regenerated env (stored env e s)) (stored env e s)"

text \<open>
  The writes of an uploaded file: every one of \<open>ws\<close> is the stream of the upload
  \<open>up\<close>, under its MIME type.
\<close>

definition media_of :: "upload option \<Rightarrow> (string \<times> obj) list \<Rightarrow> bool" where
  "media_of up ws =
     list_all
       (\<lambda>w. case up of
               None \<Rightarrow> False
             | Some f \<Rightarrow> Body (snd w) = File (tmpfile f) \<and> ContentType (snd w) = mimetype f)
       ws"

text \<open>
  What the scan asks of the object at a key before it admits the entry \<open>e\<close>: the
  object is HTML, it parses to \<open>e\<close>, and the URL of \<open>e\<close> is the request URL, as it is
  or with \<open>.html\<close> appended.
\<close>

definition admitted :: "env \<Rightarrow> publisher \<Rightarrow> string \<Rightarrow> entry \<Rightarrow> bool" where
  "admitted env p key e =
     (case pub_get env p key of
        Inl err \<Rightarrow> False
      | Inr ob \<Rightarrow>
          ContentType ob = ''text/html'' \<and>
          getEntryFromHtml (mfo env) (Body ob) (url_resolve (util env) (site_url (config env)) key) =
            Inr (Some e) \<and>
          (url e = url_resolve (util env) (site_url (config env)) key \<or>
           url e @ ''.html'' = url_resolve (util env) (site_url (config env)) key))"

text \<open>
  The candidates of a named entry as a reader counts them: the bare name first, then
  the name followed by 1, 2, 3 and so on, with no separator.
\<close>

definition named :: "env \<Rightarrow> string \<Rightarrow> date \<Rightarrow> nat \<Rightarrow> string" where
  "named env nm d k =
     datepart d @ ''/'' @ kebabCase (util env) nm @ (if k = 0 then [] else string_of_nat k)"

text \<open>Reading a printed number back, to show that printing loses nothing.\<close>

definition digit_val :: "char \<Rightarrow> nat" where
  "digit_val c = of_char c - 48"

definition number_of :: "string \<Rightarrow> nat" where
  "number_of s = foldl (\<lambda>a c. 10 * a + digit_val c) 0 s"

section \<open>A site to run\<close>

text \<open>
  Concrete collaborators, to run the model on: the site \<open>http://example.com\<close> with
  one entry a page; a parser that reads back the entry an entry page was rendered
  from and rejects every other content; mentions that are the URLs of the references;
  an oEmbed service and a webmention delivery that always fail; and a store that never
  fails. \<open>lower\<close> stands in for \<open>kebabCase\<close> on the names used here.
\<close>

definition lower :: "char \<Rightarrow> char" where
  "lower c =
     (if c = CHR '' '' then CHR ''-''
      else if c = CHR ''H'' then CHR ''h''
      else c)"

definition demo_config :: SiteConfig where
  "demo_config = \<lparr>site_url = ''http://example.com'', author_name = ''me'', entriesPerPage = 1\<rparr>"

definition demo_parse :: "body \<Rightarrow> string \<Rightarrow> error + entry option" where
  "demo_parse b u = (case b of EntryPage e \<Rightarrow> Inr (Some e) | _ \<Rightarrow> Inl (Error ''no h-entry''))"

definition demo_mfo :: codec where
  "demo_mfo =
     \<lparr>getEntry = (\<lambda>u st. Inl (Error ''unreachable'')),
      getEntryFromHtml = demo_parse,
      getMentions = (\<lambda>e. map url (replyTo e @ likeOf e @ repostOf e)),
      getPath = (\<lambda>e. drop (length ''http://example.com'') (url e)),
      isReply = (\<lambda>e. replyTo e \<noteq> []),
      isLike = (\<lambda>e. likeOf e \<noteq> []),
      isArticle = (\<lambda>e. name e \<noteq> content_value e)\<rparr>"

definition demo_util :: helpers where
  "demo_util =
     \<lparr>kebabCase = map lower,
      autoLink = (\<lambda>s. s),
      escapeHtml = (\<lambda>s. s),
      stripHtml = (\<lambda>s. s),
      collapse = (\<lambda>s. s),
      truncate_text = (\<lambda>s n. take n s),
      path_join = (\<lambda>a b. a @ ''/'' @ b),
      path_dirname = (\<lambda>s. rev (drop 1 (dropWhile (\<lambda>c. c \<noteq> CHR ''/'') (rev s)))),
      url_resolve = (\<lambda>base k. base @ k),
      url_pathname = drop (length ''http://example.com'')\<rparr>"

definition demo_net :: services where
  "demo_net =
     \<lparr>oembed = (\<lambda>l. Inl (Error ''oembed'')),
      syndicate = (\<lambda>e. Inr []),
      sendWebmention = (\<lambda>s t. Inl (Error ''webmention'')),
      put_fails = (\<lambda>k. False),
      get_fails = (\<lambda>k. False),
      exists_fails = (\<lambda>k. False),
      list_fails = False,
      commit_fails = False\<rparr>"

definition demo_env :: env where
  "demo_env = \<lparr>config = demo_config, mfo = demo_mfo, util = demo_util, net = demo_net\<rparr>"

definition empty_site :: site where
  "empty_site = \<lparr>entries = [], store = \<lparr>objects = [], commits = []\<rparr>\<rparr>"

definition march2 :: "int \<Rightarrow> date" where
  "march2 t = \<lparr>getFullYear = 2024, getMonth = 2, getDate = 2, getTime = t\<rparr>"

text \<open>The result of a \<open>publish\<close>: the URL of its entry, and the site it leaves.\<close>

definition urlOf :: "((error + entry) \<times> site) option \<Rightarrow> (error + string) option" where
  "urlOf r = map_option (\<lambda>(x, s). map_sum id url x) r"

definition after :: "((error + entry) \<times> site) option \<Rightarrow> site" where
  "after r = (case r of None \<Rightarrow> empty_site | Some (x, s) \<Rightarrow> s)"

text \<open>
  A note named Hello, published twice on 2 March 2024, and the entry and the site a
  first publish gives. The entry has the empty list of syndication targets of a new
  \<open>mfo.Entry\<close>, so the syndication step runs, and its \<open>update\<close> writes the pages a
  second time.
\<close>

definition hello :: micropub where
  "hello =
     \<lparr>m_name = Some ''Hello'', m_content = Some (Text ''Hi''), m_replyTo = None,
      m_likeOf = None, m_repostOf = None, m_category = None, m_syndication = None,
      m_photo = None, m_audio = None, m_syndicateTo = None\<rparr>"

definition first_publish :: "((error + entry) \<times> site) option" where
  "first_publish = publish demo_env (march2 10) hello empty_site"

definition second_publish :: "((error + entry) \<times> site) option" where
  "second_publish = publish demo_env (march2 20) hello (after first_publish)"

definition hello_entry :: "string \<Rightarrow> int \<Rightarrow> entry" where
  "hello_entry slug t =
     Entry (''http://example.com'' @ slug) ''Hello'' (march2 t) ''Hi''
       (''<div class='' @ dq @ ''note-content'' @ dq @ ''>Hi</div>'') ''me'' [] [] [] [] [] (Some []) None []"

definition hello_site :: site where
  "hello_site =
     \<lparr>entries = [(''http://example.com/2024/3/2/hello'', hello_entry ''/2024/3/2/hello'' 10)],
      store =
        \<lparr>objects =
           [page ''/2024/3/2/hello'' (EntryPage (hello_entry ''/2024/3/2/hello'' 10)),
            page ''index'' (StreamPage [hello_entry ''/2024/3/2/hello'' 10] 1 1),
            page ''/articles'' (IndexPage ''Articles'' [hello_entry ''/2024/3/2/hello'' 10]),
            page ''/2024/3/2/hello'' (EntryPage (hello_entry ''/2024/3/2/hello'' 10)),
            page ''index'' (StreamPage [hello_entry ''/2024/3/2/hello'' 10] 1 1),
            page ''/articles'' (IndexPage ''Articles'' [hello_entry ''/2024/3/2/hello'' 10])],
         commits = [''[me] Hello'' @ [CHR 0x0A] @ ''http://example.com/2024/3/2/hello'']\<rparr>\<rparr>"

text \<open>Three entries, the second hidden, all of them articles.\<close>

definition post :: "string \<Rightarrow> int \<Rightarrow> string list \<Rightarrow> entry" where
  "post slug t cats =
     Entry (''http://example.com'' @ slug) ''Title'' (march2 t) ''Text'' ''Text'' ''me'' [] [] []
       cats [] (Some []) None []"

definition three_posts :: site where
  "three_posts =
     \<lparr>entries =
        [(''http://example.com/a'', post ''/a'' 10 []),
         (''http://example.com/b'', post ''/b'' 20 [''hidden'', ''foo'']),
         (''http://example.com/c'', post ''/c'' 30 [''foo''])],
      store = \<lparr>objects = [], commits = []\<rparr>\<rparr>"

text \<open>
  A page elsewhere that replies to the first Hello, a web on which it can be fetched,
  and a reply to it.
\<close>

definition other_post :: entry where
  "other_post =
     Entry ''http://other.example/post'' ''Re'' (march2 15) ''Nice'' ''Nice'' ''them''
       [hello_entry ''/2024/3/2/hello'' 10] [] [] [] [] (Some []) None []"

text \<open>
  Five entries: the three above, a reply to the page elsewhere and a like of it.
\<close>

definition answer :: "string \<Rightarrow> int \<Rightarrow> entry" where
  "answer slug t =
     Entry (''http://example.com'' @ slug) ''Title'' (march2 t) ''Text'' ''Text'' ''me''
       [other_post] [] [] [] [] (Some []) None []"

definition liking :: "string \<Rightarrow> int \<Rightarrow> entry" where
  "liking slug t =
     Entry (''http://example.com'' @ slug) ''Title'' (march2 t) ''Text'' ''Text'' ''me''
       [] [other_post] [] [] [] (Some []) None []"

definition five_posts :: site where
  "five_posts =
     \<lparr>entries =
        [(''http://example.com/a'', post ''/a'' 10 []),
         (''http://example.com/b'', post ''/b'' 20 [''hidden'', ''foo'']),
         (''http://example.com/c'', post ''/c'' 30 [''foo'']),
         (''http://example.com/r'', answer ''/r'' 40),
         (''http://example.com/l'', liking ''/l'' 50)],
      store = \<lparr>objects = [], commits = []\<rparr>\<rparr>"

definition web_env :: env where
  "web_env =
     demo_env\<lparr>mfo := demo_mfo\<lparr>getEntry :=
       (\<lambda>u st. if u = ''http://other.example/post'' then Inr other_post
                else Inl (Error ''unreachable''))\<rparr>\<rparr>"

definition reply :: micropub where
  "reply = hello\<lparr>m_name := None, m_replyTo := Some ''http://other.example/post''\<rparr>"

text \<open>
  A store that refuses the first stream page; a parser that rejects everything, and a
  post with a photo; a syndication that fails, and a post that asks for it.
\<close>

definition flaky_env :: env where
  "flaky_env = demo_env\<lparr>net := demo_net\<lparr>put_fails := (\<lambda>k. k = ''index'')\<rparr>\<rparr>"

definition failed_publish :: "((error + entry) \<times> site) option" where
  "failed_publish = publish flaky_env (march2 10) hello empty_site"

definition deaf_env :: env where
  "deaf_env = demo_env\<lparr>mfo := demo_mfo\<lparr>getEntryFromHtml := (\<lambda>b u. Inl (Error ''parse''))\<rparr>\<rparr>"

definition photo_post :: micropub where
  "photo_post =
     hello\<lparr>m_photo := Some \<lparr>filename = ''cat.jpg'', tmpfile = ''/tmp/cat.jpg'',
                               mimetype = ''image/jpeg''\<rparr>\<rparr>"

definition posse_down :: env where
  "posse_down = demo_env\<lparr>net := demo_net\<lparr>syndicate := (\<lambda>e. Inl (Error ''posse''))\<rparr>\<rparr>"

definition tweet :: micropub where
  "tweet = hello\<lparr>m_syndicateTo := Some (One ''twitter'')\<rparr>"

definition tweet_entry :: entry where
  "tweet_entry =
     Entry ''http://example.com/2024/3/2/hello'' ''Hello'' (march2 10) ''Hi''
       (''<div class='' @ dq @ ''note-content'' @ dq @ ''>Hi</div>'') ''me'' [] [] [] [] []
       (Some [''twitter'']) None []"

definition tweet_publish :: "((error + entry) \<times> site) option" where
  "tweet_publish = publish posse_down (march2 10) tweet empty_site"

text \<open>
  A store to scan: an entry page, an entry page that is not at its canonical URL, a
  page that is no entry, an entry page under \<open>.html\<close>, a picture and a stream page;
  and an index that holds an entry the store does not have.
\<close>

definition scanned :: site where
  "scanned =
     \<lparr>entries = [(''http://example.com/old'', post ''/old'' 1 [])],
      store =
        \<lparr>objects =
           [page ''/2024/3/2/hello'' (EntryPage (hello_entry ''/2024/3/2/hello'' 10)),
            page ''/moved'' (EntryPage (hello_entry ''/elsewhere'' 5)),
            page ''/about'' (Other ''about''),
            page ''/page.html'' (EntryPage (hello_entry ''/page'' 7)),
            (''/cat.jpg'', \<lparr>Body = File ''/tmp/cat.jpg'', ContentType = ''image/jpeg''\<rparr>),
            page ''index'' (StreamPage [hello_entry ''/2024/3/2/hello'' 10] 1 1)],
         commits = []\<rparr>\<rparr>"

section \<open>The probing loop\<close>

text \<open>
  The loop returns the first candidate the store does not hold, leaves with the first
  exception of \<open>exists\<close>, and returns only when some candidate is not reported as
  existing.
\<close>

lemma candidate_0: "candidate n prefix 0 = prefix @ counter_text n"
  by (simp add: candidate_def)

lemma candidate_Suc: "candidate n prefix (Suc k) = candidate (incr n) prefix k"
  by (simp add: candidate_def funpow_swap1)

lemma getNextAvailable_first_gap:
  assumes "\<And>j. j < k \<Longrightarrow> ex (candidate n prefix j) = Inr True"
    and "ex (candidate n prefix k) = Inr False"
  shows "getNextAvailable ex n prefix = Some (Inr (candidate n prefix k))"
  using assms
proof (induction k arbitrary: n)
  case 0
  then show ?case
    by (subst getNextAvailable.simps) (simp add: candidate_0)
next
  case (Suc k)
  have here: "ex (prefix @ counter_text n) = Inr True"
    using Suc.prems(1) [of 0] by (simp add: candidate_0)
  have "getNextAvailable ex (incr n) prefix = Some (Inr (candidate (incr n) prefix k))"
  proof (rule Suc.IH)
    fix j assume "j < k"
    then show "ex (candidate (incr n) prefix j) = Inr True"
      using Suc.prems(1) [of "Suc j"] by (simp add: candidate_Suc)
  next
    show "ex (candidate (incr n) prefix k) = Inr False"
      using Suc.prems(2) by (simp add: candidate_Suc)
  qed
  then show ?case
    by (subst getNextAvailable.simps) (simp add: here candidate_Suc)
qed

lemma getNextAvailable_first_error:
  assumes "\<And>j. j < k \<Longrightarrow> ex (candidate n prefix j) = Inr True"
    and "ex (candidate n prefix k) = Inl e"
  shows "getNextAvailable ex n prefix = Some (Inl e)"
  using assms
proof (induction k arbitrary: n)
  case 0
  then show ?case
    by (subst getNextAvailable.simps) (simp add: candidate_0)
next
  case (Suc k)
  have here: "ex (prefix @ counter_text n) = Inr True"
    using Suc.prems(1) [of 0] by (simp add: candidate_0)
  have "getNextAvailable ex (incr n) prefix = Some (Inl e)"
  proof (rule Suc.IH)
    fix j assume "j < k"
    then show "ex (candidate (incr n) prefix j) = Inr True"
      using Suc.prems(1) [of "Suc j"] by (simp add: candidate_Suc)
  next
    show "ex (candidate (incr n) prefix k) = Inl e"
      using Suc.prems(2) by (simp add: candidate_Suc)
  qed
  then show ?case
    by (subst getNextAvailable.simps) (simp add: here)
qed

lemma getNextAvailable_returns_gap:
  assumes "getNextAvailable ex n prefix = Some r"
  shows "\<exists>k. ex (candidate n prefix k) \<noteq> Inr True"
proof (rule getNextAvailable.raw_induct
    [where P = "\<lambda>ex n prefix r. \<exists>k. ex (candidate n prefix k) \<noteq> Inr True"
       and ex = ex and n = n and prefix = prefix and y = r], goal_cases)
  case 2
  show ?case by (rule assms)
next
  case (1 f ex n prefix r)
  show ?case
  proof (cases "ex (prefix @ counter_text n) = Inr True")
    case True
    with 1(2) have "f ex (incr n) prefix = Some r" by simp
    from 1(1) [OF this] obtain k where "ex (candidate (incr n) prefix k) \<noteq> Inr True"
      by blast
    then have "ex (candidate n prefix (Suc k)) \<noteq> Inr True"
      by (simp add: candidate_Suc)
    then show ?thesis by blast
  next
    case False
    then have "ex (candidate n prefix 0) \<noteq> Inr True"
      by (simp add: candidate_0)
    then show ?thesis by blast
  qed
qed

lemma getNextAvailable_diverges:
  assumes "\<And>k. ex (candidate n prefix k) = Inr True"
  shows "getNextAvailable ex n prefix = None"
proof (cases "getNextAvailable ex n prefix")
  case None
  then show ?thesis .
next
  case (Some r)
  from getNextAvailable_returns_gap [OF this] assms show ?thesis by blast
qed

text \<open>The least index helps: a gap somewhere gives a first gap.\<close>

lemma first_gap_exists:
  assumes "\<not> present (candidate n prefix k)"
  shows "\<exists>i. (\<forall>j<i. present (candidate n prefix j)) \<and> \<not> present (candidate n prefix i)"
proof -
  let ?i = "LEAST i. \<not> present (candidate n prefix i)"
  have "\<not> present (candidate n prefix ?i)"
    using assms by (rule LeastI)
  moreover have "\<forall>j<?i. present (candidate n prefix j)"
    using not_less_Least by blast
  ultimately show ?thesis by blast
qed

text \<open>
  Printing a number is injective, so the candidates up to the limit of the counter are
  pairwise distinct, and a set with fewer keys than there are candidates cannot hold
  all of them. From the limit on the candidates repeat.
\<close>

lemma digit_val_char: "d < 10 \<Longrightarrow> digit_val (digit_char d) = d"
proof -
  assume "d < 10"
  then consider "d = 0" | "d = 1" | "d = 2" | "d = 3" | "d = 4" | "d = 5" | "d = 6" | "d = 7" | "d = 8" | "d = 9"
    by atomize_elim arith
  then show ?thesis
    by cases (simp_all add: digit_val_def digit_char_def)
qed

lemma number_of_string_of_nat: "number_of (string_of_nat n) = n"
proof (induction n rule: string_of_nat.induct)
  case (1 n)
  show ?case
  proof (cases "n < 10")
    case True
    then show ?thesis
      by (subst string_of_nat.simps) (simp add: number_of_def digit_val_char)
  next
    case False
    with 1 have "number_of (string_of_nat (n div 10)) = n div 10" by simp
    with False show ?thesis
      by (subst string_of_nat.simps) (simp add: number_of_def digit_val_char)
  qed
qed

lemma string_of_nat_inj: "string_of_nat a = string_of_nat b \<Longrightarrow> a = b"
  by (metis number_of_string_of_nat)

lemma string_of_nat_nonempty: "string_of_nat n \<noteq> []"
  by (subst string_of_nat.simps) simp

lemma js_limit_pos: "1 \<le> js_limit"
  by (simp add: js_limit_def)

lemma js_limit_Suc [simp]: "Suc 0 \<le> js_limit" "0 < js_limit" "js_limit \<noteq> 0"
  by (simp_all add: js_limit_def)

lemma incr_pow_Num: "a \<le> js_limit \<Longrightarrow> (incr ^^ k) (Num a) = Num (min (a + k) js_limit)"
  by (induction k) (simp_all add: min_def)

lemma incr_pow_Blank: "(incr ^^ Suc k) Blank = Num (min (Suc k) js_limit)"
  using incr_pow_Num [OF js_limit_pos, of k] by (simp add: funpow_swap1)

text \<open>
  From the empty string the candidates are the prefix, then the prefix followed by 1,
  2, 3 and so on, up to \<open>2^53\<close>.
\<close>

lemma candidate_Blank:
  "candidate Blank prefix k = prefix @ (if k = 0 then [] else string_of_nat (min k js_limit))"
  by (cases k) (simp_all add: candidate_def incr_pow_Blank del: funpow.simps)

lemma candidate_Num:
  "a \<le> js_limit \<Longrightarrow> candidate (Num a) prefix k = prefix @ string_of_nat (min (a + k) js_limit)"
  by (simp add: candidate_def incr_pow_Num)

lemma candidate_inj:
  assumes "exact n" and "i \<le> span n" and "j \<le> span n"
    and "candidate n prefix i = candidate n prefix j"
  shows "i = j"
proof (cases n)
  case Blank
  with assms(2,3) have le: "i \<le> js_limit" "j \<le> js_limit" by simp_all
  show ?thesis
  proof (cases "i = 0 \<or> j = 0")
    case True
    with assms(4) Blank show ?thesis
      by (auto simp add: candidate_Blank string_of_nat_nonempty string_of_nat_nonempty [THEN not_sym]
          split: if_splits)
  next
    case False
    with assms(4) Blank le have "string_of_nat i = string_of_nat j"
      by (simp add: candidate_Blank min_def)
    then show ?thesis by (rule string_of_nat_inj)
  qed
next
  case (Num a)
  with assms(1,2,3) have le: "a \<le> js_limit" "a + i \<le> js_limit" "a + j \<le> js_limit" by simp_all
  with assms(4) Num have "string_of_nat (a + i) = string_of_nat (a + j)"
    by (simp add: candidate_Num min_def)
  then have "a + i = a + j" by (rule string_of_nat_inj)
  then show ?thesis by simp
qed

lemma candidate_stops:
  assumes "exact n" and "span n \<le> k"
  shows "candidate n prefix k = candidate n prefix (span n)"
proof (cases n)
  case Blank
  with assms(2) have "js_limit \<le> k" by simp
  with js_limit_pos have "min k js_limit = js_limit" and "k \<noteq> 0" and "js_limit \<noteq> 0"
    by arith+
  with Blank show ?thesis
    by (simp add: candidate_Blank)
next
  case (Num a)
  with assms have "a \<le> js_limit" and "min (a + k) js_limit = js_limit" by simp_all
  with Num show ?thesis
    by (simp add: candidate_Num)
qed

lemma few_keys_leave_gap:
  assumes "exact n" and "finite K" and "card K \<le> span n"
  shows "\<exists>k\<le>span n. candidate n prefix k \<notin> K"
proof (rule ccontr)
  assume "\<not> ?thesis"
  then have sub: "candidate n prefix ` {0..span n} \<subseteq> K" by auto
  have "inj_on (candidate n prefix) {0..span n}"
    by (rule inj_onI) (simp add: candidate_inj [OF assms(1)])
  then have "card (candidate n prefix ` {0..span n}) = Suc (span n)"
    by (simp add: card_image)
  moreover have "card (candidate n prefix ` {0..span n}) \<le> card K"
    using sub assms(2) by (rule card_mono [rotated])
  ultimately show False using assms(3) by simp
qed

lemma pub_exists_sound:
  "\<not> exists_fails (net env) key \<Longrightarrow> pub_exists env p key = Inr (key \<in> keysOf p)"
  by (simp add: pub_exists_def keysOf_def)

lemma demo_kebab_hello: "kebabCase (util demo_env) ''Hello'' = ''hello''"
  by (simp add: demo_env_def demo_util_def lower_def)

lemma march2_datepart: "datepart (march2 t) = ''/2024/3/2''"
  by (simp add: datepart_def march2_def string_of_nat.simps digit_char_def)

lemma named_hello:
  "named demo_env ''Hello'' (march2 t) 0 = ''/2024/3/2/hello''"
  "named demo_env ''Hello'' (march2 t) (Suc 0) = ''/2024/3/2/hello1''"
  by (simp_all add: named_def march2_datepart demo_kebab_hello string_of_nat.simps digit_char_def)

lemma getSlug_probe:
  assumes "\<forall>key. \<not> exists_fails (net env) key"
    and "\<forall>j<k. candidate Blank (datepart d @ ''/'' @ kebabCase (util env) nm) j \<in> keysOf p"
    and "candidate Blank (datepart d @ ''/'' @ kebabCase (util env) nm) k \<notin> keysOf p"
  shows "getSlug env (Some nm) d p =
           Some (Inr (candidate Blank (datepart d @ ''/'' @ kebabCase (util env) nm) k))"
proof -
  let ?prefix = "datepart d @ ''/'' @ kebabCase (util env) nm"
  have "getNextAvailable (pub_exists env p) Blank ?prefix = Some (Inr (candidate Blank ?prefix k))"
  proof (rule getNextAvailable_first_gap)
    fix j assume "j < k"
    with assms(1,2) show "pub_exists env p (candidate Blank ?prefix j) = Inr True"
      by (simp add: pub_exists_sound)
  next
    from assms(1,3) show "pub_exists env p (candidate Blank ?prefix k) = Inr False"
      by (simp add: pub_exists_sound)
  qed
  then show ?thesis
    by (simp only: getSlug_def option.case)
qed

lemma candidate_named:
  "k \<le> js_limit \<Longrightarrow>
     candidate Blank (datepart d @ ''/'' @ kebabCase (util env) nm) k = named env nm d k"
  by (simp add: candidate_Blank named_def min_def)

lemma getSlug_first_free:
  assumes "\<forall>key. \<not> exists_fails (net env) key"
    and "k \<le> js_limit"
    and "\<forall>j<k. named env nm d j \<in> keysOf p"
    and "named env nm d k \<notin> keysOf p"
  shows "getSlug env (Some nm) d p = Some (Inr (named env nm d k))"
proof -
  let ?prefix = "datepart d @ ''/'' @ kebabCase (util env) nm"
  have "\<forall>j<k. candidate Blank ?prefix j \<in> keysOf p"
  proof (intro allI impI)
    fix j assume "j < k"
    with assms(2) have "candidate Blank ?prefix j = named env nm d j"
      by (intro candidate_named) simp
    with assms(3) \<open>j < k\<close> show "candidate Blank ?prefix j \<in> keysOf p" by simp
  qed
  moreover have "candidate Blank ?prefix k \<notin> keysOf p"
    using assms(4) by (simp only: candidate_named [OF assms(2)] not_False_eq_True)
  ultimately have "getSlug env (Some nm) d p = Some (Inr (candidate Blank ?prefix k))"
    using assms(1) by (intro getSlug_probe) simp_all
  then show ?thesis
    by (simp only: candidate_named [OF assms(2)])
qed

section \<open>The writes of a regeneration\<close>

lemma rejects_iff: "rejects env ws = (\<exists>w\<in>set ws. put_fails (net env) (fst w))"
  by (simp add: rejects_def list_ex_iff)

lemma media_of_iff:
  "media_of up ws =
     (\<forall>w\<in>set ws. \<exists>f. up = Some f \<and> Body (snd w) = File (tmpfile f) \<and>
        ContentType (snd w) = mimetype f)"
  by (cases up) (simp_all add: media_of_def list_all_iff)

lemma add_objects_Nil [simp]: "add_objects [] s = s"
  by (simp add: add_objects_def)

lemma add_objects_append: "add_objects ws (add_objects vs s) = add_objects (vs @ ws) s"
  by (simp add: add_objects_def)

lemma entries_add_objects [simp]: "entries (add_objects ws s) = entries s"
  by (simp add: add_objects_def)

lemma commits_add_objects [simp]: "commits (store (add_objects ws s)) = commits (store s)"
  by (simp add: add_objects_def)

lemma objects_add_objects [simp]: "objects (store (add_objects ws s)) = objects (store s) @ ws"
  by (simp add: add_objects_def)

lemma getAll_add_objects [simp]: "getAll (add_objects ws s) = getAll s"
  by (simp add: getAll_def)

text \<open>
  A batch of writes under \<open>util_map\<close> appends the writes the store accepts, and fails
  when the store refuses one of them.
\<close>

lemma on_store_put:
  "on_store (pub_put env k b ct) s =
     (if put_fails (net env) k then (Inl (Error ''put''), s)
      else (Inr (), add_objects [(k, \<lparr>Body = b, ContentType = ct\<rparr>)] s))"
  by (simp add: on_store_def pub_put_def add_objects_def)

lemma util_map_put:
  "util_map (\<lambda>x. on_store (pub_put env (key x) (bdy x) ''text/html'')) xs s =
     (if \<exists>x\<in>set xs. put_fails (net env) (key x) then Inl (Error ''put'')
      else Inr (map (\<lambda>x. ()) xs),
      add_objects (accepted env (map (\<lambda>x. page (key x) (bdy x)) xs)) s)"
proof (induction xs arbitrary: s)
  case Nil
  show ?case by (simp add: accepted_def)
next
  case (Cons x xs)
  show ?case
    apply (simp only: util_map.simps Cons.IH)
    apply (simp add: on_store_put accepted_def page_def add_objects_append)
    done
qed

lemma upto_as_upt: "[0..int n - 1] = map int [0..<n]"
proof (induction n)
  case 0
  show ?case by simp
next
  case (Suc n)
  have "[0..int (Suc n) - 1] = [0..int n - 1] @ [int n]"
    using upto_rec2 [of 0 "int n"] by simp
  with Suc show ?case by simp
qed

lemma util_map_range:
  "util_map f (util_range 0 (int n - 1)) = util_map (\<lambda>i. f (int i)) [0..<n]"
proof -
  have "util_map f (map g xs) = util_map (\<lambda>i. f (g i)) xs" for g :: "nat \<Rightarrow> int" and xs
  proof (rule ext, goal_cases)
    case (1 s)
    show ?case by (induction xs arbitrary: s) simp_all
  qed
  then show ?thesis
    by (simp add: util_range_def upto_as_upt)
qed

lemma accepted_all: "\<forall>w\<in>set ws. \<not> put_fails (net env) (fst w) \<Longrightarrow> accepted env ws = ws"
  by (simp add: accepted_def)

lemma accepted_subset: "set (accepted env ws) \<subseteq> set ws"
  by (auto simp: accepted_def)

text \<open>
  \<open>generateStreams\<close> in its four steps, and what it returns and leaves: each batch
  runs in full, and the first batch with a refused write ends the regeneration.
\<close>

lemma generateStreams_steps:
  "generateStreams env s =
     (case util_map (\<lambda>i. generateStream env (mainChunks env s ! i) (i + 1) (length (mainChunks env s)))
             [0..<length (mainChunks env s)] s of
        (Inl e, s1) \<Rightarrow> (Inl e, s1)
      | (Inr x, s1) \<Rightarrow>
          (case util_map (\<lambda>i. generateReplyStream env (replyChunks env s ! i) (i + 1) (length (replyChunks env s)))
                  [0..<length (replyChunks env s)] s1 of
             (Inl e, s2) \<Rightarrow> (Inl e, s2)
           | (Inr x, s2) \<Rightarrow>
               (case util_map (\<lambda>tag. generateIndex env (filter (\<lambda>e. tag \<in> set (category e)) (sortByDateDesc (getAll s)))
                          (''Posts tagged '' @ tag) (getPathForTag env tag))
                       (util_unique (util_flatten (map category (sortByDateDesc (getAll s))))) s2 of
                  (Inl e, s3) \<Rightarrow> (Inl e, s3)
                | (Inr x, s3) \<Rightarrow>
                    generateIndex env (filter (isArticle (mfo env)) (sortByDateDesc (getAll s))) ''Articles'' ''/articles'' s3)))"
  by (simp add: generateStreams_def Let_def await_def util_map_range mainChunks_def replyChunks_def
      split: prod.splits sum.splits)

lemma accepted_ok: "\<not> rejects env ws \<Longrightarrow> accepted env ws = ws"
  by (simp add: rejects_iff accepted_def)

lemma stream_batch:
  "util_map (\<lambda>i. generateStream env (mainChunks env s ! i) (i + 1) (length (mainChunks env s)))
     [0..<length (mainChunks env s)] s0 =
   (if rejects env (streamWrites env s) then Inl (Error ''put'')
    else Inr (map (\<lambda>x. ()) [0..<length (mainChunks env s)]),
    add_objects (accepted env (streamWrites env s)) s0)"
  unfolding generateStream_def streamWrites_def rejects_iff
  by (simp add: util_map_put page_def)

lemma reply_batch:
  "util_map (\<lambda>i. generateReplyStream env (replyChunks env s ! i) (i + 1) (length (replyChunks env s)))
     [0..<length (replyChunks env s)] s0 =
   (if rejects env (replyWrites env s) then Inl (Error ''put'')
    else Inr (map (\<lambda>x. ()) [0..<length (replyChunks env s)]),
    add_objects (accepted env (replyWrites env s)) s0)"
  unfolding generateReplyStream_def replyWrites_def rejects_iff
  by (simp add: util_map_put page_def)

lemma tag_batch:
  "util_map (\<lambda>tag. generateIndex env (filter (\<lambda>e. tag \<in> set (category e)) (sortByDateDesc (getAll s)))
                (''Posts tagged '' @ tag) (getPathForTag env tag))
     (util_unique (util_flatten (map category (sortByDateDesc (getAll s))))) s0 =
   (if rejects env (tagWrites env s) then Inl (Error ''put'')
    else Inr (map (\<lambda>x. ()) (util_unique (util_flatten (map category (sortByDateDesc (getAll s)))))),
    add_objects (accepted env (tagWrites env s)) s0)"
  unfolding generateIndex_def tagWrites_def rejects_iff
  by (simp add: util_map_put page_def)

lemma articles_step:
  "generateIndex env (filter (isArticle (mfo env)) (sortByDateDesc (getAll s))) ''Articles'' ''/articles'' s0 =
   (if rejects env [articlesWrite env s] then (Inl (Error ''put''), s0)
    else (Inr (), add_objects [articlesWrite env s] s0))"
  by (simp add: generateIndex_def articlesWrite_def rejects_iff on_store_put page_def)

lemma generateStreams_eq:
  "generateStreams env s =
     (if rejects env (streamWrites env s)
      then (Inl (Error ''put''), add_objects (accepted env (streamWrites env s)) s)
      else if rejects env (replyWrites env s)
      then (Inl (Error ''put''),
            add_objects (streamWrites env s @ accepted env (replyWrites env s)) s)
      else if rejects env (tagWrites env s)
      then (Inl (Error ''put''),
            add_objects (streamWrites env s @ replyWrites env s @ accepted env (tagWrites env s)) s)
      else if rejects env [articlesWrite env s]
      then (Inl (Error ''put''),
            add_objects (streamWrites env s @ replyWrites env s @ tagWrites env s) s)
      else (Inr (), add_objects (regenerated env s) s))"
  apply (simp only: generateStreams_steps stream_batch reply_batch tag_batch articles_step)
  apply (simp add: accepted_ok add_objects_append regenerated_def)
  done

lemma generateStreams_written:
  "\<exists>ws. snd (generateStreams env s) = add_objects ws s \<and> set ws \<subseteq> set (regenerated env s)"
proof -
  have sub: "set (accepted env ws) \<subseteq> set ws" for ws
    by (rule accepted_subset)
  let ?A = "streamWrites env s" and ?B = "replyWrites env s" and ?C = "tagWrites env s"
  have "snd (generateStreams env s) \<in>
          {add_objects (accepted env ?A) s, add_objects (?A @ accepted env ?B) s,
           add_objects (?A @ ?B @ accepted env ?C) s, add_objects (?A @ ?B @ ?C) s,
           add_objects (regenerated env s) s}"
    by (simp add: generateStreams_eq)
  moreover have "set (accepted env ?A) \<subseteq> set (regenerated env s)"
    using sub [of ?A] by (auto simp: regenerated_def)
  moreover have "set (?A @ accepted env ?B) \<subseteq> set (regenerated env s)"
    using sub [of ?B] by (auto simp: regenerated_def)
  moreover have "set (?A @ ?B @ accepted env ?C) \<subseteq> set (regenerated env s)"
    using sub [of ?C] by (auto simp: regenerated_def)
  moreover have "set (?A @ ?B @ ?C) \<subseteq> set (regenerated env s)"
    by (auto simp: regenerated_def)
  ultimately show ?thesis
    by blast
qed

lemma generateStreams_success:
  "fst (generateStreams env s) = Inr () \<Longrightarrow> snd (generateStreams env s) = add_objects (regenerated env s) s"
  by (simp add: generateStreams_eq split: if_splits)

lemma generateStreams_total:
  "\<not> rejects env (regenerated env s) \<Longrightarrow> generateStreams env s = (Inr (), add_objects (regenerated env s) s)"
  by (simp add: generateStreams_eq rejects_iff regenerated_def)

text \<open>
  The pages among the writes of a regeneration.
\<close>

lemma written_add_objects [simp]: "written s (add_objects ws s) = ws"
  by (simp add: written_def)

lemma streamPages_append: "streamPages (a @ b) = streamPages a @ streamPages b"
  by (induction a) (simp_all split: body.splits)

lemma replyPages_append: "replyPages (a @ b) = replyPages a @ replyPages b"
  by (induction a) (simp_all split: body.splits)

lemma indexPages_append: "indexPages (a @ b) = indexPages a @ indexPages b"
  by (induction a) (simp_all split: body.splits)

lemma streamPages_map_stream:
  "streamPages (map (\<lambda>i. page (k i) (StreamPage (f i) (g i) n)) xs) = map (\<lambda>i. (g i, f i)) xs"
  by (induction xs) (simp_all add: page_def)

lemma streamPages_map_reply:
  "streamPages (map (\<lambda>i. page (k i) (ReplyStreamPage (f i) (g i) n)) xs) = []"
  by (induction xs) (simp_all add: page_def)

lemma streamPages_map_index:
  "streamPages (map (\<lambda>i. page (k i) (IndexPage (c i) (f i))) xs) = []"
  by (induction xs) (simp_all add: page_def)

lemma replyPages_map_stream:
  "replyPages (map (\<lambda>i. page (k i) (StreamPage (f i) (g i) n)) xs) = []"
  by (induction xs) (simp_all add: page_def)

lemma replyPages_map_reply:
  "replyPages (map (\<lambda>i. page (k i) (ReplyStreamPage (f i) (g i) n)) xs) = map (\<lambda>i. (g i, f i)) xs"
  by (induction xs) (simp_all add: page_def)

lemma replyPages_map_index:
  "replyPages (map (\<lambda>i. page (k i) (IndexPage (c i) (f i))) xs) = []"
  by (induction xs) (simp_all add: page_def)

lemma indexPages_map_stream:
  "indexPages (map (\<lambda>i. page (k i) (StreamPage (f i) (g i) n)) xs) = []"
  by (induction xs) (simp_all add: page_def)

lemma indexPages_map_reply:
  "indexPages (map (\<lambda>i. page (k i) (ReplyStreamPage (f i) (g i) n)) xs) = []"
  by (induction xs) (simp_all add: page_def)

lemma indexPages_map_index:
  "indexPages (map (\<lambda>i. page (k i) (IndexPage (c i) (f i))) xs) = map (\<lambda>i. (k i, f i)) xs"
  by (induction xs) (simp_all add: page_def)

lemma pages_of_articles:
  "Body (snd (page k b)) = b"
  "fst (page k b) = k"
  by (simp_all add: page_def)

lemma streamPages_regenerated:
  "streamPages (regenerated env s) =
     map (\<lambda>i. (i + 1, mainChunks env s ! i)) [0..<length (mainChunks env s)]"
  by (simp add: regenerated_def streamPages_append streamWrites_def replyWrites_def tagWrites_def
      articlesWrite_def streamPages_map_stream streamPages_map_reply streamPages_map_index pages_of_articles)

lemma replyPages_regenerated:
  "replyPages (regenerated env s) =
     map (\<lambda>i. (i + 1, replyChunks env s ! i)) [0..<length (replyChunks env s)]"
  by (simp add: regenerated_def replyPages_append streamWrites_def replyWrites_def tagWrites_def
      articlesWrite_def replyPages_map_stream replyPages_map_reply replyPages_map_index pages_of_articles)

lemma indexPages_regenerated:
  "indexPages (regenerated env s) =
     map (\<lambda>tag. (getPathForTag env tag,
                 filter (\<lambda>e. tag \<in> set (category e)) (sortByDateDesc (getAll s))))
       (util_unique (util_flatten (map category (sortByDateDesc (getAll s))))) @
     [(''/articles'', filter (isArticle (mfo env)) (sortByDateDesc (getAll s)))]"
  by (simp add: regenerated_def indexPages_append streamWrites_def replyWrites_def tagWrites_def
      articlesWrite_def indexPages_map_stream indexPages_map_reply indexPages_map_index pages_of_articles)

lemma streamPages_subset: "set ws \<subseteq> set vs \<Longrightarrow> set (streamPages ws) \<subseteq> set (streamPages vs)"
proof -
  have mem: "x \<in> set (streamPages ws) \<longleftrightarrow>
      (\<exists>w\<in>set ws. \<exists>t. Body (snd w) = StreamPage (snd x) (fst x) t)" for x ws
    by (induction ws) (auto split: body.splits)
  assume "set ws \<subseteq> set vs"
  then show ?thesis
    unfolding subset_iff mem by blast
qed

lemma replyPages_subset: "set ws \<subseteq> set vs \<Longrightarrow> set (replyPages ws) \<subseteq> set (replyPages vs)"
proof -
  have mem: "x \<in> set (replyPages ws) \<longleftrightarrow>
      (\<exists>w\<in>set ws. \<exists>t. Body (snd w) = ReplyStreamPage (snd x) (fst x) t)" for x ws
    by (induction ws) (auto split: body.splits)
  assume "set ws \<subseteq> set vs"
  then show ?thesis
    unfolding subset_iff mem by blast
qed

text \<open>
  Chunks: their concatenation is the list, none is longer than the size, and each
  holds elements of the list only. Sorting commutes with filtering.
\<close>

lemma util_chunk_concat: "0 < n \<Longrightarrow> concat (util_chunk n xs) = xs"
proof (induction n xs rule: util_chunk.induct)
  case (1 n xs)
  then show ?case
    by (subst util_chunk.simps) simp
qed

lemma util_chunk_length: "c \<in> set (util_chunk n xs) \<Longrightarrow> length c \<le> n \<and> c \<noteq> []"
proof (induction n xs rule: util_chunk.induct)
  case (1 n xs)
  from "1.prems" have ne: "\<not> (n = 0 \<or> xs = [])"
    by (subst (asm) util_chunk.simps) (auto split: if_splits)
  from "1.prems" ne have "c = take n xs \<or> c \<in> set (util_chunk n (drop n xs))"
    by (subst (asm) util_chunk.simps) simp
  then show ?case
  proof
    assume "c = take n xs"
    with ne show ?thesis by simp
  next
    assume "c \<in> set (util_chunk n (drop n xs))"
    with "1.IH" ne show ?thesis by blast
  qed
qed

lemma chunks_in_filtered:
  "c \<in> set (util_chunk n xs) \<Longrightarrow> set c \<subseteq> set xs"
proof (induction n xs rule: util_chunk.induct)
  case (1 n xs)
  from "1.prems" have ne: "\<not> (n = 0 \<or> xs = [])"
    by (subst (asm) util_chunk.simps) (auto split: if_splits)
  from "1.prems" ne have "c = take n xs \<or> c \<in> set (util_chunk n (drop n xs))"
    by (subst (asm) util_chunk.simps) simp
  then show ?case
  proof
    assume "c = take n xs"
    then show ?thesis by (auto dest: in_set_takeD)
  next
    assume "c \<in> set (util_chunk n (drop n xs))"
    with "1.IH" ne have "set c \<subseteq> set (drop n xs)" by blast
    then show ?thesis by (auto dest: in_set_dropD)
  qed
qed

lemma sortByDateDesc_filter: "filter P (sortByDateDesc es) = sortByDateDesc (filter P es)"
  by (simp add: sortByDateDesc_def filter_sort)

lemma sortByDateDesc_sorted:
  "sorted_wrt (\<lambda>a b. getTime (published b) \<le> getTime (published a)) (sortByDateDesc es)"
proof -
  have "sorted (map (\<lambda>e. - getTime (published e)) (sortByDateDesc es))"
    by (simp add: sortByDateDesc_def)
  then show ?thesis
    by (simp add: sorted_map)
qed

lemma sortByDateDesc_mset: "mset (sortByDateDesc es) = mset es"
  by (simp add: sortByDateDesc_def)

lemma sortByDateDesc_set: "set (sortByDateDesc es) = set es"
  by (simp add: sortByDateDesc_def)

lemma hidden_filtered: "''hidden'' \<in> set (category e) \<Longrightarrow> \<not> hiddenFilter e"
  by (auto simp: hiddenFilter_def list_ex_iff)

lemma demo_no_faults [simp]:
  "put_fails (net demo_env) k = False"
  "get_fails (net demo_env) k = False"
  "exists_fails (net demo_env) k = False"
  "list_fails (net demo_env) = False"
  "commit_fails (net demo_env) = False"
  by (simp_all add: demo_env_def demo_net_def)

lemma demo_regenerates:
  "generateStreams demo_env s = (Inr (), add_objects (regenerated demo_env s) s)"
  by (rule generateStreams_total) (simp add: rejects_iff)

lemma three_sorted:
  "sortByDateDesc (getAll three_posts) =
     [post ''/c'' 30 [''foo''], post ''/b'' 20 [''hidden'', ''foo''], post ''/a'' 10 []]"
  by (simp add: sortByDateDesc_def getAll_def three_posts_def post_def march2_def)

text \<open>
  The keys of the main-stream pages: no two pages share a key, and no other page of a
  regeneration is written at one of them when the reply pages are not. So the object
  at the key of a page is that page, and paging through the keys gives the chunks in
  order.
\<close>

lemma getPathForIndex_inj: "getPathForIndex p = getPathForIndex q \<Longrightarrow> p = q"
  by (auto simp add: getPathForIndex_def string_of_nat_nonempty string_of_nat_nonempty [THEN not_sym]
      split: if_splits dest: string_of_nat_inj)

lemma objectAt_append:
  "objectAt (a @ b) k = (case objectAt b k of None \<Rightarrow> objectAt a k | Some v \<Rightarrow> Some v)"
  by (simp add: objectAt_def map_add_def split: option.splits)

lemma objectAt_absent: "k \<notin> fst ` set ws \<Longrightarrow> objectAt ws k = None"
  by (simp add: objectAt_def map_of_eq_None_iff)

lemma objectAt_pages:
  assumes "inj_on key (set xs)" and "x \<in> set xs"
  shows "objectAt (map (\<lambda>i. page (key i) (b i)) xs) (key x) = Some (snd (page (key x) (b x)))"
  using assms
proof (induction xs rule: rev_induct)
  case Nil
  then show ?case by simp
next
  case (snoc y xs)
  show ?case
  proof (cases "key y = key x")
    case True
    with snoc.prems have "y = x" by (auto dest: inj_onD)
    then show ?thesis
      by (simp add: objectAt_append) (simp add: objectAt_def page_def)
  next
    case False
    with snoc.prems have "x \<in> set xs" and "inj_on key (set xs)" by (auto simp: inj_on_def)
    with snoc.IH have "objectAt (map (\<lambda>i. page (key i) (b i)) xs) (key x) = Some (snd (page (key x) (b x)))"
      by simp
    with False show ?thesis
      by (simp add: objectAt_append) (simp add: objectAt_def page_def)
  qed
qed

lemma main_key_not_tag: "getPathForIndex p \<noteq> getPathForTag env tag"
  by (simp add: getPathForIndex_def getPathForTag_def)

lemma main_key_not_articles: "getPathForIndex p \<noteq> ''/articles''"
  by (simp add: getPathForIndex_def)

lemma streamWrites_keys:
  "fst ` set (streamWrites env s) = getPathForIndex ` {1..length (mainChunks env s)}"
proof -
  let ?n = "length (mainChunks env s)"
  have "fst ` set (streamWrites env s) = (\<lambda>i. getPathForIndex (Suc i)) ` {0..<?n}"
    by (simp add: streamWrites_def image_image pages_of_articles)
  also have "\<dots> = getPathForIndex ` (Suc ` {0..<?n})"
    by (simp only: image_image)
  also have "Suc ` {0..<?n} = {1..?n}"
    by (simp only: image_Suc_atLeastLessThan atLeastLessThanSuc_atLeastAtMost One_nat_def)
  finally show ?thesis .
qed

lemma others_keys:
  assumes "\<forall>p q. path_join (util env) ''replies'' (getPathForIndex p) \<noteq> getPathForIndex q"
  shows "getPathForIndex p \<notin> fst ` set (replyWrites env s @ tagWrites env s @ [articlesWrite env s])"
proof -
  from assms have other: "getPathForIndex p \<noteq> path_join (util env) ''replies'' (getPathForIndex q)" for q
    by metis
  have "getPathForIndex p \<notin> fst ` set (replyWrites env s)"
    using other by (auto simp add: replyWrites_def pages_of_articles image_image)
  moreover have "getPathForIndex p \<notin> fst ` set (tagWrites env s)"
    using main_key_not_tag [of p env] by (auto simp add: tagWrites_def pages_of_articles image_image)
  moreover have "getPathForIndex p \<noteq> fst (articlesWrite env s)"
    using main_key_not_articles [of p] by (simp add: articlesWrite_def pages_of_articles)
  ultimately show ?thesis by auto
qed

lemma main_keys_regenerated:
  assumes "\<forall>p q. path_join (util env) ''replies'' (getPathForIndex p) \<noteq> getPathForIndex q"
  shows "getPathForIndex p \<in> fst ` set (regenerated env s) \<longleftrightarrow>
           1 \<le> p \<and> p \<le> length (mainChunks env s)"
proof -
  have "getPathForIndex p \<in> fst ` set (regenerated env s) \<longleftrightarrow>
          getPathForIndex p \<in> fst ` set (streamWrites env s)"
    using others_keys [OF assms, of p s] by (auto simp add: regenerated_def)
  also have "\<dots> \<longleftrightarrow> p \<in> {1..length (mainChunks env s)}"
    unfolding streamWrites_keys by (auto dest: getPathForIndex_inj)
  finally show ?thesis by simp
qed

lemma objectAt_regenerated:
  assumes "\<forall>p q. path_join (util env) ''replies'' (getPathForIndex p) \<noteq> getPathForIndex q"
    and "i < length (mainChunks env s)"
  shows "objectAt (regenerated env s) (getPathForIndex (Suc i)) =
           Some \<lparr>Body = StreamPage (mainChunks env s ! i) (Suc i) (length (mainChunks env s)),
                 ContentType = ''text/html''\<rparr>"
proof -
  let ?n = "length (mainChunks env s)"
  have "objectAt (regenerated env s) (getPathForIndex (Suc i)) =
          objectAt (streamWrites env s) (getPathForIndex (Suc i))"
    using objectAt_absent [OF others_keys [OF assms(1), of "Suc i" s]]
    by (simp add: regenerated_def objectAt_append [of "streamWrites env s"])
  also have "\<dots> = Some (snd (page (getPathForIndex (Suc i)) (StreamPage (mainChunks env s ! i) (Suc i) ?n)))"
  proof -
    have "inj_on (\<lambda>i. getPathForIndex (Suc i)) (set [0..<?n])"
      by (rule inj_onI) (auto dest: getPathForIndex_inj)
    moreover have "i \<in> set [0..<?n]" using assms(2) by simp
    ultimately show ?thesis
      using objectAt_pages [of "\<lambda>i. getPathForIndex (Suc i)" "[0..<?n]" i
          "\<lambda>i. StreamPage (mainChunks env s ! i) (Suc i) ?n"]
      by (simp add: streamWrites_def)
  qed
  finally show ?thesis by (simp add: page_def)
qed

lemma pagesFrom_regenerated:
  assumes "\<forall>p q. path_join (util env) ''replies'' (getPathForIndex p) \<noteq> getPathForIndex q"
  shows "pagesFrom (regenerated env s) (Suc i) fuel = take fuel (drop i (mainChunks env s))"
proof (induction fuel arbitrary: i)
  case 0
  then show ?case by simp
next
  case (Suc fuel)
  show ?case
  proof (cases "i < length (mainChunks env s)")
    case True
    then have "drop i (mainChunks env s) = mainChunks env s ! i # drop (Suc i) (mainChunks env s)"
      by (simp add: Cons_nth_drop_Suc)
    with True show ?thesis
      by (simp add: objectAt_regenerated [OF assms True] Suc.IH)
  next
    case False
    then have "getPathForIndex (Suc i) \<notin> fst ` set (regenerated env s)"
      by (simp add: main_keys_regenerated [OF assms])
    then have "objectAt (regenerated env s) (getPathForIndex (Suc i)) = None"
      by (rule objectAt_absent)
    with False show ?thesis by simp
  qed
qed

lemma mainStream_regenerated:
  assumes "\<forall>p q. path_join (util env) ''replies'' (getPathForIndex p) \<noteq> getPathForIndex q"
  shows "mainStream (regenerated env s) = mainChunks env s"
proof -
  have "length (mainChunks env s) \<le> length (regenerated env s)"
    by (simp add: regenerated_def streamWrites_def)
  then show ?thesis
    using pagesFrom_regenerated [OF assms, of s 0 "length (regenerated env s)"]
    by (simp add: mainStream_def)
qed

lemma demo_reply_keys:
  "\<forall>p q. path_join (util demo_env) ''replies'' (getPathForIndex p) \<noteq> getPathForIndex q"
  by (simp add: demo_env_def demo_util_def getPathForIndex_def)

lemma five_stream:
  "mainStream (regenerated demo_env five_posts) = [[post ''/c'' 30 [''foo'']], [post ''/a'' 10 []]]"
  by code_simp

section \<open>What a scan admits\<close>

text \<open>
  Every pair the callbacks add to the local map is an entry under its own URL that
  the key admits; and the callbacks fail only when \<open>get\<close> fails.
\<close>

lemma set_update_subset: "set (AList.update k v al) \<subseteq> insert (k, v) (set al)"
  by (induction al) auto

lemma scanKey_acc:
  assumes "(u, e) \<in> set (snd (scanKey env p key acc))"
  shows "(u, e) \<in> set acc \<or> (u = url e \<and> admitted env p key e)"
proof (cases "pub_get env p key")
  case (Inl err)
  with assms show ?thesis by (simp add: scanKey_def)
next
  case (Inr ob)
  show ?thesis
  proof (cases "ContentType ob = ''text/html''")
    case False
    with assms Inr show ?thesis by (simp add: scanKey_def)
  next
    case True
    let ?u = "url_resolve (util env) (site_url (config env)) key"
    show ?thesis
    proof (cases "getEntryFromHtml (mfo env) (Body ob) ?u")
      case (Inl err)
      with assms Inr True show ?thesis by (simp add: scanKey_def)
    next
      case parsed: (Inr r)
      show ?thesis
      proof (cases r)
        case None
        with assms Inr True parsed show ?thesis by (simp add: scanKey_def)
      next
        case (Some e')
        show ?thesis
        proof (cases "url e' = ?u \<or> url e' @ ''.html'' = ?u")
          case False
          with assms Inr True parsed Some show ?thesis by (simp add: scanKey_def)
        next
          case ok: True
          with assms Inr True parsed Some
          have "(u, e) \<in> set (AList.update (url e') e' acc)"
            by (simp add: scanKey_def)
          with set_update_subset have "(u, e) = (url e', e') \<or> (u, e) \<in> set acc"
            by fastforce
          moreover have "admitted env p key e'"
            using Inr True parsed Some ok by (simp add: admitted_def)
          ultimately show ?thesis by auto
        qed
      qed
    qed
  qed
qed

lemma util_map_scanKey_acc:
  assumes "(u, e) \<in> set (snd (util_map (scanKey env p) keys acc))"
  shows "(u, e) \<in> set acc \<or> (\<exists>key\<in>set keys. u = url e \<and> admitted env p key e)"
  using assms
proof (induction keys arbitrary: acc)
  case Nil
  then show ?case by simp
next
  case (Cons key keys)
  obtain r acc1 where step: "scanKey env p key acc = (r, acc1)"
    by (cases "scanKey env p key acc")
  with Cons.prems have "(u, e) \<in> set (snd (util_map (scanKey env p) keys acc1))"
    by (auto split: prod.splits sum.splits)
  from Cons.IH [OF this]
  have "(u, e) \<in> set acc1 \<or> (\<exists>key\<in>set keys. u = url e \<and> admitted env p key e)" .
  moreover have "(u, e) \<in> set acc1 \<Longrightarrow> (u, e) \<in> set acc \<or> (u = url e \<and> admitted env p key e)"
    using scanKey_acc [of u e env p key acc] step by simp
  ultimately show ?case by auto
qed

lemma scanKey_ok:
  assumes "pub_get env p key = Inr ob"
  shows "fst (scanKey env p key acc) = Inr ()"
  using assms by (simp add: scanKey_def Let_def split: sum.splits option.splits)

lemma util_map_scanKey_ok:
  assumes "\<forall>key\<in>set keys. \<exists>ob. pub_get env p key = Inr ob"
  shows "\<exists>rs. fst (util_map (scanKey env p) keys acc) = Inr rs"
  using assms
proof (induction keys arbitrary: acc)
  case Nil
  show ?case by simp
next
  case (Cons key keys)
  obtain r acc1 where step: "scanKey env p key acc = (r, acc1)"
    by (cases "scanKey env p key acc")
  from Cons.prems obtain ob where "pub_get env p key = Inr ob" by auto
  from scanKey_ok [OF this, of acc] step have r: "r = Inr ()" by simp
  from Cons.prems have "\<forall>key\<in>set keys. \<exists>ob. pub_get env p key = Inr ob" by simp
  from Cons.IH [OF this, of acc1] obtain rs where "fst (util_map (scanKey env p) keys acc1) = Inr rs"
    by blast
  then show ?case
    by (auto simp add: step r split: prod.splits)
qed

lemma pub_get_listed:
  assumes "\<not> get_fails (net env) key" and "key \<in> set (map fst (objects p))"
  shows "\<exists>ob. pub_get env p key = Inr ob"
proof -
  from assms(2) have "key \<in> fst ` set (rev (objects p))" by simp
  then obtain ob where "map_of (rev (objects p)) key = Some ob"
    by (metis domD dom_map_of_conv_image_fst)
  with assms(1) show ?thesis by (simp add: pub_get_def)
qed

section \<open>The steps of a publish\<close>

text \<open>
  \<open>update\<close> and the steps after it, when the store accepts every write.
\<close>

lemma update_eq:
  "update env e s =
     (if put_fails (net env) (getPath (mfo env) e) then (Inl (Error ''put''), s)
      else (case generateStreams env (stored env e s) of
              (Inl err, s2) \<Rightarrow> (Inl err, s2)
            | (Inr x, s2) \<Rightarrow> (Inr e, s2)))"
  by (simp add: update_def await_def on_store_put return_def stored_def renderEntry_def page_def
      split: prod.splits sum.splits)

lemma update_ok:
  assumes "\<forall>k. \<not> put_fails (net env) k"
  shows "update env e s = (Inr e, add_objects (regenerated env (stored env e s)) (stored env e s))"
proof -
  have "generateStreams env (stored env e s) =
          (Inr (), add_objects (regenerated env (stored env e s)) (stored env e s))"
    by (rule generateStreams_total) (simp add: rejects_iff assms)
  with assms show ?thesis
    by (simp add: update_eq)
qed

lemma sendWebmentionsFor_ok: "sendWebmentionsFor env e s = (Inr (), s)"
proof -
  have "util_map (\<lambda>link. lift (case sendWebmention (net env) (url e) link of
                          Inl err \<Rightarrow> Inr () | Inr x \<Rightarrow> Inr ())) links s =
          (Inr (map (\<lambda>l. ()) links), s)" for links
    by (induction links) (simp_all add: lift_def split: sum.splits)
  then show ?thesis
    by (simp add: sendWebmentionsFor_def await_def return_def)
qed

lemma commit_eq:
  "on_store (pub_commit env msg) s =
     (if commit_fails (net env) then (Inl (Error ''commit''), s) else (Inr (), committed msg s))"
  by (simp add: on_store_def pub_commit_def committed_def)

lemma syndicateStep_ok:
  assumes "\<forall>k. \<not> put_fails (net env) k"
    and "syndicateTo e \<noteq> None \<longrightarrow> (\<exists>l. syndicate (net env) e = Inr l)"
  shows "\<exists>e' s'. syndicateStep env e s = (Inr e', s')"
proof (cases "syndicateTo e")
  case None
  then show ?thesis by (simp add: syndicateStep_def return_def)
next
  case (Some targets)
  with assms(2) obtain l where "syndicate (net env) e = Inr l" by auto
  with Some show ?thesis
    by (simp add: syndicateStep_def await_def lift_def update_ok [OF assms(1)])
qed

lemma finish_ok:
  assumes "\<forall>k. \<not> put_fails (net env) k" and "\<not> commit_fails (net env)"
    and "syndicateTo e \<noteq> None \<longrightarrow> (\<exists>l. syndicate (net env) e = Inr l)"
  shows "\<exists>e' s'. finish env e s = (Inr e', s')"
proof -
  let ?s1 = "add_objects (regenerated env (stored env e s)) (stored env e s)"
  from syndicateStep_ok [OF assms(1,3), of ?s1] obtain e' s2
    where "syndicateStep env e ?s1 = (Inr e', s2)" by blast
  then show ?thesis
    by (simp add: finish_def await_def update_ok [OF assms(1)] commit_eq assms(2)
        sendWebmentionsFor_ok return_def)
qed

text \<open>
  The first part of \<open>publish\<close> changes the site by at most the two media writes,
  whatever it returns.
\<close>

lemma attach_eq:
  "attach env slug up wrap e s =
     (case up of
        None \<Rightarrow> (Inr e, s)
      | Some f \<Rightarrow>
          if put_fails (net env) (path_join (util env) (path_dirname (util env) slug) (filename f))
          then (Inl (Error ''put''), s)
          else (Inr (set_content_html (wrap f (content_html e)) e),
                add_objects
                  [(path_join (util env) (path_dirname (util env) slug) (filename f),
                    \<lparr>Body = File (tmpfile f), ContentType = mimetype f\<rparr>)] s))"
  by (simp add: attach_def return_def await_def on_store_put split: option.splits)

lemma attach_effect:
  "\<exists>ws. snd (attach env slug up wrap e s) = add_objects ws s \<and> length ws \<le> 1 \<and> media_of up ws"
proof (cases up)
  case None
  have "snd (attach env slug up wrap e s) = add_objects [] s \<and> length ([] :: (string \<times> obj) list) \<le> 1 \<and> media_of up []"
    by (simp add: attach_eq None media_of_iff)
  then show ?thesis by blast
next
  case (Some f)
  let ?w = "(path_join (util env) (path_dirname (util env) slug) (filename f),
             \<lparr>Body = File (tmpfile f), ContentType = mimetype f\<rparr>)"
  show ?thesis
  proof (cases "put_fails (net env) (fst ?w)")
    case True
    have "snd (attach env slug up wrap e s) = add_objects [] s \<and> length ([] :: (string \<times> obj) list) \<le> 1 \<and> media_of up []"
      using True by (simp add: attach_eq Some media_of_iff)
    then show ?thesis by blast
  next
    case False
    have "snd (attach env slug up wrap e s) = add_objects [?w] s \<and> length [?w] \<le> 1 \<and> media_of up [?w]"
      using False by (simp add: attach_eq Some media_of_iff)
    then show ?thesis by blast
  qed
qed


lemma prepare_states:
  assumes "prepare env now m s = Some (r, s')"
  shows "s' = s \<or>
         (\<exists>slug e. s' = snd (attach env slug (m_photo m) photoHtml e s)) \<or>
         (\<exists>slug e e1. s' = snd (attach env slug (m_audio m) audioHtml e1
                                  (snd (attach env slug (m_photo m) photoHtml e s))))"
proof -
  from assms obtain g where slug: "getSlug env (m_name m) now (store s) = Some g"
    by (auto simp: prepare_def split: option.splits)
  show ?thesis
  proof (cases g)
    case (Inl e)
    with assms slug show ?thesis by (simp add: prepare_def)
  next
    case (Inr slug')
    with assms slug show ?thesis
      apply (simp add: prepare_def await_def lift_def split: sum.splits prod.splits)
        apply (metis snd_conv)+
      done
  qed
qed

lemma prepare_effect:
  assumes "prepare env now m s = Some (r, s')"
  shows "\<exists>a b. s' = add_objects (a @ b) s \<and> length a \<le> 1 \<and> length b \<le> 1 \<and>
               media_of (m_photo m) a \<and> media_of (m_audio m) b"
proof -
  have nil: "media_of up []" for up
    by (simp add: media_of_iff)
  from prepare_states [OF assms] consider
      "s' = s"
    | slug e where "s' = snd (attach env slug (m_photo m) photoHtml e s)"
    | slug e e1 where "s' = snd (attach env slug (m_audio m) audioHtml e1
                                  (snd (attach env slug (m_photo m) photoHtml e s)))"
    by blast
  then show ?thesis
  proof cases
    case 1
    then have "s' = add_objects ([] @ []) s \<and> length ([] :: (string \<times> obj) list) \<le> 1 \<and>
               length ([] :: (string \<times> obj) list) \<le> 1 \<and>
               media_of (m_photo m) [] \<and> media_of (m_audio m) []"
      by (simp add: nil)
    then show ?thesis by blast
  next
    case 2
    from attach_effect [of env slug "m_photo m" photoHtml e s] obtain a
      where "snd (attach env slug (m_photo m) photoHtml e s) = add_objects a s"
        and "length a \<le> 1" and "media_of (m_photo m) a" by blast
    with 2 have "s' = add_objects (a @ []) s \<and> length a \<le> 1 \<and>
               length ([] :: (string \<times> obj) list) \<le> 1 \<and>
               media_of (m_photo m) a \<and> media_of (m_audio m) []"
      by (simp add: nil)
    then show ?thesis by blast
  next
    case 3
    from attach_effect [of env slug "m_photo m" photoHtml e s] obtain a
      where a: "snd (attach env slug (m_photo m) photoHtml e s) = add_objects a s"
        and a': "length a \<le> 1" "media_of (m_photo m) a" by blast
    from attach_effect [of env slug "m_audio m" audioHtml e1 "add_objects a s"] obtain b
      where b: "snd (attach env slug (m_audio m) audioHtml e1 (add_objects a s)) =
                  add_objects b (add_objects a s)"
        and b': "length b \<le> 1" "media_of (m_audio m) b" by blast
    from 3 a b have "s' = add_objects (a @ b) s"
      by (simp add: add_objects_append)
    with a' b' show ?thesis by blast
  qed
qed

lemma publish_of_failed_prepare:
  "prepare env now m s = Some (Inl err, s') \<Longrightarrow> publish env now m s = Some (Inl err, s')"
  by (simp add: publish_def)

text \<open>
  When nothing else fails, each step of \<open>publish\<close> returns: the slug loop because the
  store holds fewer than \<open>2^53\<close> keys, so that a candidate is free before the counter
  stops; then the references, the media, the parser and the second part.
\<close>

lemma finite_keysOf: "finite (keysOf p)"
  by (simp add: keysOf_def)

lemma getNextAvailable_store_total:
  assumes "\<forall>k. \<not> exists_fails (net env) k" and "exact n" and "card (keysOf p) \<le> span n"
  shows "\<exists>slug. getNextAvailable (pub_exists env p) n prefix = Some (Inr slug) \<and> slug \<notin> keysOf p"
proof -
  from few_keys_leave_gap [OF assms(2) finite_keysOf assms(3), of prefix]
  obtain k0 where "\<not> (\<lambda>key. key \<in> keysOf p) (candidate n prefix k0)" by blast
  from first_gap_exists [of "\<lambda>key. key \<in> keysOf p" n prefix k0, OF this] obtain i
    where before: "\<forall>j<i. candidate n prefix j \<in> keysOf p"
      and here: "candidate n prefix i \<notin> keysOf p" by blast
  have "getNextAvailable (pub_exists env p) n prefix = Some (Inr (candidate n prefix i))"
    by (rule getNextAvailable_first_gap) (simp_all add: pub_exists_sound assms(1) before here)
  with here show ?thesis by blast
qed

lemma getSlug_total:
  assumes "\<forall>k. \<not> exists_fails (net env) k" and "card (keysOf p) < js_limit"
  shows "\<exists>slug. getSlug env nm d p = Some (Inr slug) \<and> slug \<notin> keysOf p"
proof (cases nm)
  case None
  from assms(2) have "exact (Num 1)" and "card (keysOf p) \<le> span (Num 1)"
    by simp_all
  from getNextAvailable_store_total [OF assms(1) this] None show ?thesis
    by (simp add: getSlug_def)
next
  case (Some n)
  from assms(2) have "exact Blank" and "card (keysOf p) \<le> span Blank"
    by simp_all
  from getNextAvailable_store_total [OF assms(1) this] Some show ?thesis
    by (simp add: getSlug_def)
qed

lemma resolve_ok:
  assumes "\<forall>u\<in>set_option target. \<exists>r. getEntry (mfo env) u strategies = Inr r"
  shows "\<exists>r. resolve env target = Inr r"
  using assms by (cases target) (auto simp: resolve_def)

lemma attach_ok:
  assumes "\<forall>k. \<not> put_fails (net env) k"
  shows "\<exists>e' s'. attach env slug up wrap e s = (Inr e', s')"
  using assms by (cases up) (simp_all add: attach_eq)

lemma reparse_ok:
  assumes "\<forall>e u. \<exists>e'. getEntryFromHtml (mfo env) (renderEntry e) u = Inr (Some e')"
  shows "\<exists>e'. reparse env e = Inr e'"
proof -
  from assms obtain e' where "getEntryFromHtml (mfo env) (renderEntry e) (url e) = Inr (Some e')"
    by blast
  then show ?thesis by (simp add: reparse_def)
qed

lemma prepare_ok:
  assumes "\<forall>k. \<not> exists_fails (net env) k" and "card (keysOf (store s)) < js_limit"
    and "\<forall>k. \<not> put_fails (net env) k"
    and "\<forall>u\<in>set_option (m_replyTo m) \<union> set_option (m_likeOf m) \<union> set_option (m_repostOf m).
           \<exists>r. getEntry (mfo env) u strategies = Inr r"
    and "\<forall>e u. \<exists>e'. getEntryFromHtml (mfo env) (renderEntry e) u = Inr (Some e')"
  shows "\<exists>e s1. prepare env now m s = Some (Inr e, s1)"
proof -
  from getSlug_total [OF assms(1,2)] obtain slug
    where slug: "getSlug env (m_name m) now (store s) = Some (Inr slug)" by blast
  from assms(4) obtain r l rp
    where r: "resolve env (m_replyTo m) = Inr r"
      and l: "resolve env (m_likeOf m) = Inr l"
      and rp: "resolve env (m_repostOf m) = Inr rp"
    using resolve_ok [of "m_replyTo m" env] resolve_ok [of "m_likeOf m" env]
      resolve_ok [of "m_repostOf m" env] by (meson UnCI)
  from attach_ok [OF assms(3)] obtain e1 s1
    where a1: "attach env slug (m_photo m) photoHtml (newEntry env now m slug r l rp) s = (Inr e1, s1)"
    by blast
  from attach_ok [OF assms(3)] obtain e2 s2
    where a2: "attach env slug (m_audio m) audioHtml e1 s1 = (Inr e2, s2)"
    by blast
  from reparse_ok [OF assms(5)] obtain e3
    where "reparse env (embedAll env (getMentions (mfo env) e2) e2) = Inr e3" by blast
  then have "prepare env now m s = Some (Inr e3, s2)"
    by (simp add: prepare_def slug await_def lift_def r l rp a1 a2)
  then show ?thesis by blast
qed

lemma publish_ok:
  assumes "\<forall>k. \<not> exists_fails (net env) k" and "card (keysOf (store s)) < js_limit"
    and "\<forall>k. \<not> put_fails (net env) k" and "\<not> commit_fails (net env)"
    and "\<forall>u\<in>set_option (m_replyTo m) \<union> set_option (m_likeOf m) \<union> set_option (m_repostOf m).
           \<exists>r. getEntry (mfo env) u strategies = Inr r"
    and "\<forall>e u. \<exists>e'. getEntryFromHtml (mfo env) (renderEntry e) u = Inr (Some e')"
    and "\<forall>e. syndicateTo e \<noteq> None \<longrightarrow> (\<exists>l. syndicate (net env) e = Inr l)"
  shows "\<exists>e s'. publish env now m s = Some (Inr e, s')"
proof -
  from prepare_ok [OF assms(1,2,3,5,6)] obtain e s1
    where p: "prepare env now m s = Some (Inr e, s1)" by blast
  from assms(7) have "syndicateTo e \<noteq> None \<longrightarrow> (\<exists>l. syndicate (net env) e = Inr l)" by blast
  from finish_ok [OF assms(3,4) this] obtain e' s'
    where "finish env e s1 = (Inr e', s')" by blast
  with p show ?thesis by (simp add: publish_def)
qed

section \<open>Runs on the concrete site\<close>

lemma finish_plain:
  assumes "\<forall>k. \<not> put_fails (net env) k" and "\<not> commit_fails (net env)"
    and "syndicateTo e = None"
  shows "finish env e s =
           (Inr e, committed (commitMessage env e)
                     (add_objects (regenerated env (stored env e s)) (stored env e s)))"
  by (simp add: finish_def await_def update_ok [OF assms(1)] syndicateStep_def assms(2,3)
      return_def commit_eq sendWebmentionsFor_ok)

text \<open>
  With a list of targets and a syndication that gives no link, the entry is stored and
  the views are regenerated twice.
\<close>

lemma set_syndication_same: "set_syndication (syndication e) e = e"
  by (cases e) simp

lemma finish_syndicated:
  assumes "\<forall>k. \<not> put_fails (net env) k" and "\<not> commit_fails (net env)"
    and "syndicateTo e = Some ts" and "syndicate (net env) e = Inr []"
  shows "finish env e s =
           (Inr e, committed (commitMessage env e) (updated env e (updated env e s)))"
  by (simp add: finish_def await_def update_ok [OF assms(1)] syndicateStep_def assms(2,3,4)
      lift_def set_syndication_same return_def commit_eq sendWebmentionsFor_ok updated_def)

lemma hello_slug_free:
  "getSlug demo_env (Some ''Hello'') (march2 t) (store empty_site) = Some (Inr ''/2024/3/2/hello'')"
  using getSlug_first_free [of demo_env 0 "''Hello''" "march2 t" "store empty_site"]
  by (simp add: named_hello keysOf_def empty_site_def)

lemma hello_slug_taken:
  "getSlug demo_env (Some ''Hello'') (march2 t) (store hello_site) = Some (Inr ''/2024/3/2/hello1'')"
  using getSlug_first_free [of demo_env "Suc 0" "''Hello''" "march2 t" "store hello_site"]
  by (simp add: named_hello keysOf_def hello_site_def page_def)

lemma hello_prepare:
  assumes "getSlug demo_env (Some ''Hello'') (march2 t) (store s) = Some (Inr slug)"
  shows "prepare demo_env (march2 t) hello s = Some (Inr (hello_entry slug t), s)"
  using assms
  by (simp add: prepare_def hello_def await_def lift_def resolve_def attach_eq reparse_def
      demo_env_def demo_mfo_def demo_parse_def renderEntry_def newEntry_def demo_config_def
      demo_util_def orElse_def listOf_def hello_entry_def demo_net_def getSlug_def)

lemma hello_regenerated:
  "regenerated demo_env (stored demo_env (hello_entry ''/2024/3/2/hello'' 10) empty_site) =
     [page ''index'' (StreamPage [hello_entry ''/2024/3/2/hello'' 10] 1 1),
      page ''/articles'' (IndexPage ''Articles'' [hello_entry ''/2024/3/2/hello'' 10])]"
  by code_simp

lemma regenerated_entries:
  "entries s = entries s' \<Longrightarrow> regenerated env s = regenerated env s'"
  by (simp add: regenerated_def streamWrites_def replyWrites_def tagWrites_def articlesWrite_def
      mainChunks_def replyChunks_def getAll_def)

lemma hello_updated:
  "updated demo_env (hello_entry ''/2024/3/2/hello'' 10) s =
     add_objects
       [page ''/2024/3/2/hello'' (EntryPage (hello_entry ''/2024/3/2/hello'' 10)),
        page ''index'' (StreamPage [hello_entry ''/2024/3/2/hello'' 10] 1 1),
        page ''/articles'' (IndexPage ''Articles'' [hello_entry ''/2024/3/2/hello'' 10])]
       (s\<lparr>entries := [(''http://example.com/2024/3/2/hello'', hello_entry ''/2024/3/2/hello'' 10)]\<rparr>)"
  if "entries s = [] \<or>
      entries s = [(''http://example.com/2024/3/2/hello'', hello_entry ''/2024/3/2/hello'' 10)]"
proof -
  let ?e = "hello_entry ''/2024/3/2/hello'' 10"
  have u: "url ?e = ''http://example.com/2024/3/2/hello''"
    by (simp add: hello_entry_def)
  have p: "getPath (mfo demo_env) ?e = ''/2024/3/2/hello''"
    by (simp add: demo_env_def demo_mfo_def hello_entry_def)
  have en: "entries (stored demo_env ?e s) = entries (stored demo_env ?e empty_site)"
    using that by (auto simp add: stored_def add_objects_def empty_site_def u)
  have "regenerated demo_env (stored demo_env ?e s) =
          [page ''index'' (StreamPage [?e] 1 1), page ''/articles'' (IndexPage ''Articles'' [?e])]"
    by (simp only: regenerated_entries [OF en] hello_regenerated)
  moreover have "entries (stored demo_env ?e s) = [(''http://example.com/2024/3/2/hello'', ?e)]"
    using that by (auto simp add: stored_def add_objects_def u)
  ultimately show ?thesis
    by (simp add: updated_def stored_def add_objects_def p)
qed

lemma hello_published:
  "first_publish = Some (Inr (hello_entry ''/2024/3/2/hello'' 10), hello_site)"
proof -
  let ?e = "hello_entry ''/2024/3/2/hello'' 10"
  have "syndicateTo ?e = Some []"
    by (simp add: hello_entry_def)
  moreover have "syndicate (net demo_env) ?e = Inr []"
    by (simp add: demo_env_def demo_net_def)
  ultimately have "finish demo_env ?e empty_site =
      (Inr ?e, committed (commitMessage demo_env ?e) (updated demo_env ?e (updated demo_env ?e empty_site)))"
    by (intro finish_syndicated) simp_all
  moreover have "updated demo_env ?e empty_site =
      add_objects
       [page ''/2024/3/2/hello'' (EntryPage ?e), page ''index'' (StreamPage [?e] 1 1),
        page ''/articles'' (IndexPage ''Articles'' [?e])]
       (empty_site\<lparr>entries := [(''http://example.com/2024/3/2/hello'', ?e)]\<rparr>)" (is "_ = ?s1")
    by (rule hello_updated) (simp add: empty_site_def)
  moreover have "updated demo_env ?e ?s1 =
      add_objects
       [page ''/2024/3/2/hello'' (EntryPage ?e), page ''index'' (StreamPage [?e] 1 1),
        page ''/articles'' (IndexPage ''Articles'' [?e])]
       (?s1\<lparr>entries := [(''http://example.com/2024/3/2/hello'', ?e)]\<rparr>)"
    by (rule hello_updated) (simp add: add_objects_def)
  moreover have "commitMessage demo_env ?e = ''[me] Hello'' @ [CHR 0x0A] @ ''http://example.com/2024/3/2/hello''"
    by (simp add: commitMessage_def demo_env_def demo_util_def hello_entry_def)
  ultimately have "finish demo_env ?e empty_site = (Inr ?e, hello_site)"
    by (simp add: committed_def add_objects_def empty_site_def hello_site_def)
  then show ?thesis
    by (simp add: first_publish_def publish_def hello_prepare [OF hello_slug_free])
qed

lemma hello_slug:
  assumes "\<forall>k. \<not> exists_fails (net env) k" and "kebabCase (util env) ''Hello'' = ''hello''"
    and "''/2024/3/2/hello'' \<notin> keysOf p"
  shows "getSlug env (Some ''Hello'') (march2 t) p = Some (Inr ''/2024/3/2/hello'')"
  using getSlug_first_free [of env 0 "''Hello''" "march2 t" p] assms
  by (simp add: named_def march2_datepart)

lemma variants:
  "util deaf_env = demo_util" "net deaf_env = demo_net" "config deaf_env = demo_config"
  "util flaky_env = demo_util" "mfo flaky_env = demo_mfo" "config flaky_env = demo_config"
  "util posse_down = demo_util" "mfo posse_down = demo_mfo" "config posse_down = demo_config"
  "util web_env = demo_util" "net web_env = demo_net" "config web_env = demo_config"
  "util demo_env = demo_util" "net demo_env = demo_net" "config demo_env = demo_config"
  "mfo demo_env = demo_mfo"
  by (simp_all add: deaf_env_def flaky_env_def posse_down_def web_env_def demo_env_def)

lemma demo_kebab: "kebabCase demo_util ''Hello'' = ''hello''"
  by (simp add: demo_util_def lower_def)

lemma empty_keys: "keysOf (store empty_site) = {}"
  by (simp add: keysOf_def empty_site_def)

lemma deaf_prepare:
  "prepare deaf_env (march2 10) photo_post empty_site =
     Some (Inl (Error ''parse''),
           add_objects [(''/2024/3/2/cat.jpg'',
                         \<lparr>Body = File ''/tmp/cat.jpg'', ContentType = ''image/jpeg''\<rparr>)] empty_site)"
proof -
  have "getSlug deaf_env (Some ''Hello'') (march2 10) (store empty_site) = Some (Inr ''/2024/3/2/hello'')"
    by (rule hello_slug) (simp_all add: variants demo_kebab empty_keys demo_net_def)
  then show ?thesis
    by (simp add: variants prepare_def photo_post_def hello_def await_def lift_def resolve_def attach_eq
        reparse_def deaf_env_def demo_env_def demo_mfo_def demo_util_def demo_net_def)
qed

lemma flaky_prepare:
  "prepare flaky_env (march2 10) hello empty_site =
     Some (Inr (hello_entry ''/2024/3/2/hello'' 10), empty_site)"
proof -
  have "getSlug flaky_env (Some ''Hello'') (march2 10) (store empty_site) = Some (Inr ''/2024/3/2/hello'')"
    by (rule hello_slug) (simp_all add: variants demo_kebab empty_keys flaky_env_def demo_net_def)
  then show ?thesis
    by (simp add: variants prepare_def hello_def await_def lift_def resolve_def attach_eq reparse_def
      flaky_env_def demo_env_def demo_mfo_def demo_parse_def renderEntry_def newEntry_def demo_config_def
      demo_util_def orElse_def listOf_def hello_entry_def demo_net_def getSlug_def)
qed

lemma flaky_stream:
  "streamWrites flaky_env (stored flaky_env (hello_entry ''/2024/3/2/hello'' 10) empty_site) =
     [page ''index'' (StreamPage [hello_entry ''/2024/3/2/hello'' 10] 1 1)]"
  by code_simp

lemma tweet_prepare:
  "prepare posse_down (march2 10) tweet empty_site = Some (Inr tweet_entry, empty_site)"
proof -
  have "getSlug posse_down (Some ''Hello'') (march2 10) (store empty_site) = Some (Inr ''/2024/3/2/hello'')"
    by (rule hello_slug) (simp_all add: variants demo_kebab empty_keys posse_down_def demo_net_def)
  then show ?thesis
    by (simp add: variants prepare_def tweet_def hello_def await_def lift_def resolve_def attach_eq reparse_def
      demo_mfo_def demo_parse_def renderEntry_def newEntry_def demo_config_def
      demo_util_def orElse_def listOf_def tweet_entry_def)
qed

lemma scanned_index:
  "entries (snd (scan demo_env scanned)) =
     [(''http://example.com/2024/3/2/hello'', hello_entry ''/2024/3/2/hello'' 10),
      (''http://example.com/page'', hello_entry ''/page'' 7)]"
  by code_simp

section \<open>The claims\<close>

subsection \<open>Failure of a publish\<close>

text \<open>
  C1, as amended. When \<open>publish\<close> fails before the entry is put in the index, that
  is in its first part (while it allocates the slug, resolves a reference, writes a
  media file or parses the rendered entry again) or at the write of the entry page in
  the first \<open>update\<close>, then the index is as it was, nothing is committed, and the
  store has gained at most the file of the attached photo and the file of the
  attached audio.
\<close>

theorem publish_failure_before_update:
  assumes "prepare env now m s = Some (Inl err, s') \<or>
           (\<exists>e. prepare env now m s = Some (Inr e, s') \<and>
                put_fails (net env) (getPath (mfo env) e) \<and> err = Error ''put'')"
  shows "publish env now m s = Some (Inl err, s') \<and>
         entries s' = entries s \<and>
         commits (store s') = commits (store s) \<and>
         (\<exists>photo audio.
            objects (store s') = objects (store s) @ photo @ audio \<and>
            length photo \<le> 1 \<and> length audio \<le> 1 \<and>
            media_of (m_photo m) photo \<and> media_of (m_audio m) audio)"
proof -
  from assms obtain r where prep: "prepare env now m s = Some (r, s')"
    by blast
  from prepare_effect [OF prep] obtain a b
    where "s' = add_objects (a @ b) s" and "length a \<le> 1" and "length b \<le> 1"
      and "media_of (m_photo m) a" and "media_of (m_audio m) b" by blast
  then have state: "entries s' = entries s \<and> commits (store s') = commits (store s) \<and>
         objects (store s') = objects (store s) @ a @ b \<and> length a \<le> 1 \<and> length b \<le> 1 \<and>
         media_of (m_photo m) a \<and> media_of (m_audio m) b"
    by simp
  from assms have "publish env now m s = Some (Inl err, s')"
  proof
    assume "prepare env now m s = Some (Inl err, s')"
    then show ?thesis by (rule publish_of_failed_prepare)
  next
    assume "\<exists>e. prepare env now m s = Some (Inr e, s') \<and>
                put_fails (net env) (getPath (mfo env) e) \<and> err = Error ''put''"
    then obtain e where e: "prepare env now m s = Some (Inr e, s')"
      and refused: "put_fails (net env) (getPath (mfo env) e)" and err: "err = Error ''put''"
      by blast
    from refused have "finish env e s' = (Inl (Error ''put''), s')"
      by (simp add: finish_def await_def update_eq)
    with e err show ?thesis by (simp add: publish_def)
  qed
  with state show ?thesis by blast
qed

text \<open>
  With a parser that rejects everything, a post with a photo fails after the photo
  was written: the photo stays in the store and the index is unchanged.
\<close>

theorem publish_failure_before_update_witness:
  "prepare deaf_env (march2 10) photo_post empty_site =
     Some (Inl (Error ''parse''),
           add_objects [(''/2024/3/2/cat.jpg'',
                         \<lparr>Body = File ''/tmp/cat.jpg'', ContentType = ''image/jpeg''\<rparr>)] empty_site) \<and>
   publish deaf_env (march2 10) photo_post empty_site =
     Some (Inl (Error ''parse''),
           add_objects [(''/2024/3/2/cat.jpg'',
                         \<lparr>Body = File ''/tmp/cat.jpg'', ContentType = ''image/jpeg''\<rparr>)] empty_site) \<and>
   entries (add_objects [(''/2024/3/2/cat.jpg'',
                         \<lparr>Body = File ''/tmp/cat.jpg'', ContentType = ''image/jpeg''\<rparr>)] empty_site) =
     entries empty_site"
  using publish_failure_before_update [of deaf_env "march2 10" photo_post empty_site
      "Error ''parse''" "add_objects [(''/2024/3/2/cat.jpg'',
         \<lparr>Body = File ''/tmp/cat.jpg'', ContentType = ''image/jpeg''\<rparr>)] empty_site"]
    deaf_prepare
  by simp

text \<open>
  C1 as stated fails: nothing is rolled back. When the write of the first stream page
  fails, \<open>publish\<close> fails before the commit, and the entry is in the index and its
  page is in the store.
\<close>

theorem failed_publish_changes_index:
  "map_option fst failed_publish = Some (Inl (Error ''put'')) \<and>
   entries empty_site = [] \<and>
   entries (after failed_publish) =
     [(''http://example.com/2024/3/2/hello'', hello_entry ''/2024/3/2/hello'' 10)] \<and>
   objects (store empty_site) = [] \<and>
   objects (store (after failed_publish)) =
     [page ''/2024/3/2/hello'' (EntryPage (hello_entry ''/2024/3/2/hello'' 10))] \<and>
   commits (store (after failed_publish)) = []"
proof -
  let ?e = "hello_entry ''/2024/3/2/hello'' 10"
  have fails: "put_fails (net flaky_env) k = (k = ''index'')" for k
    by (simp add: flaky_env_def)
  have rej: "rejects flaky_env (streamWrites flaky_env (stored flaky_env ?e empty_site))"
    by (simp add: flaky_stream rejects_iff page_def fails)
  have acc: "accepted flaky_env (streamWrites flaky_env (stored flaky_env ?e empty_site)) = []"
    by (simp add: flaky_stream accepted_def page_def fails)
  have path: "\<not> put_fails (net flaky_env) (getPath demo_mfo ?e)"
    by (simp add: fails demo_mfo_def hello_entry_def)
  have "finish flaky_env ?e empty_site = (Inl (Error ''put''), stored flaky_env ?e empty_site)"
    by (simp add: variants finish_def await_def update_eq path generateStreams_eq rej acc)
  then have fp: "failed_publish = Some (Inl (Error ''put''), stored flaky_env ?e empty_site)"
    by (simp add: failed_publish_def publish_def flaky_prepare)
  have res: "map_option fst failed_publish = Some (Inl (Error ''put''))"
    and aft: "after failed_publish = stored flaky_env ?e empty_site"
    by (simp_all add: after_def fp)
  have "entries (stored flaky_env ?e empty_site) = [(''http://example.com/2024/3/2/hello'', ?e)] \<and>
        objects (store (stored flaky_env ?e empty_site)) = [page ''/2024/3/2/hello'' (EntryPage ?e)] \<and>
        commits (store (stored flaky_env ?e empty_site)) = []"
    by (simp add: variants stored_def empty_site_def hello_entry_def demo_mfo_def)
  with res aft show ?thesis
    by (simp add: empty_site_def)
qed

subsection \<open>Rejection of a webmention\<close>

text \<open>
  C2. \<open>receiveWebmention\<close> fails with a \<open>BadRequest\<close> exactly when the target is not
  in the index, or the source cannot be fetched as an entry, or no mention of the
  fetched source equals the target; and then the site is as it was: no entry has a new
  child and nothing was written to the store or committed.
\<close>

theorem receiveWebmention_rejects:
  "((\<exists>msg. fst (receiveWebmention env sourceUrl targetUrl s) = Inl (BadRequest msg)) =
      (map_of (entries s) targetUrl = None \<or>
       (\<exists>err. getEntry (mfo env) sourceUrl [] = Inl err) \<or>
       (\<exists>src. getEntry (mfo env) sourceUrl [] = Inr src \<and>
              targetUrl \<notin> set (getMentions (mfo env) src)))) \<and>
   ((\<exists>msg. fst (receiveWebmention env sourceUrl targetUrl s) = Inl (BadRequest msg)) \<longrightarrow>
      snd (receiveWebmention env sourceUrl targetUrl s) = s)"
proof (cases "map_of (entries s) targetUrl")
  case None
  then show ?thesis
    by (simp add: receiveWebmention_def get_def)
next
  case (Some target)
  show ?thesis
  proof (cases "getEntry (mfo env) sourceUrl []")
    case (Inl err)
    with Some show ?thesis
      by (simp add: receiveWebmention_def get_def)
  next
    case (Inr src)
    show ?thesis
    proof (cases "targetUrl \<in> set (getMentions (mfo env) src)")
      case False
      with Some Inr show ?thesis
        by (simp add: receiveWebmention_def get_def list_ex_iff)
    next
      case True
      have "fst (await (on_store (pub_put env k b ct)) (\<lambda>_. on_store (pub_commit env m)) s0)
              \<noteq> Inl (BadRequest msg)" for k b ct m s0 msg
        by (simp add: await_def on_store_def pub_put_def pub_commit_def)
      with Some Inr True show ?thesis
        by (simp add: receiveWebmention_def get_def list_ex_iff)
    qed
  qed
qed

text \<open>
  An unknown target and an unreachable source are rejected and the site is unchanged;
  a source that replies to an indexed entry is not rejected.
\<close>

theorem receiveWebmention_rejects_witness:
  "(\<exists>msg. fst (receiveWebmention web_env ''http://other.example/post''
       ''http://example.com/nope'' hello_site) = Inl (BadRequest msg)) \<and>
   snd (receiveWebmention web_env ''http://other.example/post''
       ''http://example.com/nope'' hello_site) = hello_site \<and>
   (\<exists>msg. fst (receiveWebmention web_env ''http://nowhere.example/''
       ''http://example.com/2024/3/2/hello'' hello_site) = Inl (BadRequest msg)) \<and>
   \<not> (\<exists>msg. fst (receiveWebmention web_env ''http://other.example/post''
       ''http://example.com/2024/3/2/hello'' hello_site) = Inl (BadRequest msg))"
proof -
  have unknown: "map_of (entries hello_site) ''http://example.com/nope'' = None"
    by (simp add: hello_site_def)
  have known: "map_of (entries hello_site) ''http://example.com/2024/3/2/hello'' =
      Some (hello_entry ''/2024/3/2/hello'' 10)"
    by (simp add: hello_site_def)
  have src: "getEntry (mfo web_env) ''http://other.example/post'' [] = Inr other_post"
    and nosrc: "getEntry (mfo web_env) ''http://nowhere.example/'' [] = Inl (Error ''unreachable'')"
    by (simp_all add: web_env_def)
  have mentions: "getMentions (mfo web_env) other_post = [''http://example.com/2024/3/2/hello'']"
    by (simp add: web_env_def demo_mfo_def other_post_def hello_entry_def)
  from receiveWebmention_rejects [of web_env "''http://other.example/post''"
      "''http://example.com/nope''" hello_site] unknown
  have a: "(\<exists>msg. fst (receiveWebmention web_env ''http://other.example/post''
       ''http://example.com/nope'' hello_site) = Inl (BadRequest msg)) \<and>
   snd (receiveWebmention web_env ''http://other.example/post''
       ''http://example.com/nope'' hello_site) = hello_site"
    by simp
  from receiveWebmention_rejects [of web_env "''http://nowhere.example/''"
      "''http://example.com/2024/3/2/hello''" hello_site] known nosrc
  have b: "\<exists>msg. fst (receiveWebmention web_env ''http://nowhere.example/''
       ''http://example.com/2024/3/2/hello'' hello_site) = Inl (BadRequest msg)"
    by simp
  from receiveWebmention_rejects [of web_env "''http://other.example/post''"
      "''http://example.com/2024/3/2/hello''" hello_site] known src mentions
  have c: "\<not> (\<exists>msg. fst (receiveWebmention web_env ''http://other.example/post''
       ''http://example.com/2024/3/2/hello'' hello_site) = Inl (BadRequest msg))"
    by simp
  from a b c show ?thesis by blast
qed

subsection \<open>Pagination of the main stream\<close>

text \<open>
  C3. When the page size is positive and a regeneration succeeds, read the main-stream
  pages it wrote by their keys, \<open>index\<close>, \<open>index2\<close>, \<open>index3\<close> and so on. Their
  concatenation is the list of the entries of the index that are not replies, not
  likes and not tagged \<open>hidden\<close>, sorted by publish time, latest first; it has each of
  these entries as often as the index has it (none is left out, none is repeated), so
  that it has no duplicates when the index has none; and no page holds more than
  \<open>entriesPerPage\<close> entries. Page \<open>i\<close> of \<open>n\<close> is the object the store holds at the
  key of \<open>i\<close> after the run, these keys are the only main-stream keys written, and two
  page numbers never share a key. The reply pages are written under \<open>replies\<close>: the
  path they are joined to is not the key of a main-stream page.
\<close>

theorem main_stream_pagination:
  assumes "0 < entriesPerPage (config env)"
    and "generateStreams env s = (Inr (), s')"
    and "\<forall>p q. path_join (util env) ''replies'' (getPathForIndex p) \<noteq> getPathForIndex q"
  shows "concat (mainStream (written s s')) =
           sortByDateDesc
             (filter (\<lambda>e. \<not> isReply (mfo env) e \<and> \<not> isLike (mfo env) e \<and>
                          ''hidden'' \<notin> set (category e)) (getAll s)) \<and>
         mset (concat (mainStream (written s s'))) =
           filter_mset (\<lambda>e. \<not> isReply (mfo env) e \<and> \<not> isLike (mfo env) e \<and>
                             ''hidden'' \<notin> set (category e)) (mset (getAll s)) \<and>
         sorted_wrt (\<lambda>a b. getTime (published b) \<le> getTime (published a))
           (concat (mainStream (written s s'))) \<and>
         (distinct (getAll s) \<longrightarrow> distinct (concat (mainStream (written s s')))) \<and>
         (\<forall>c\<in>set (mainStream (written s s')). length c \<le> entriesPerPage (config env)) \<and>
         (\<forall>i<length (mainStream (written s s')).
            objectAt (objects (store s')) (getPathForIndex (i + 1)) =
              Some \<lparr>Body = StreamPage (mainStream (written s s') ! i) (i + 1)
                             (length (mainStream (written s s'))),
                    ContentType = ''text/html''\<rparr>) \<and>
         (\<forall>p. getPathForIndex p \<in> fst ` set (written s s') \<longleftrightarrow>
                1 \<le> p \<and> p \<le> length (mainStream (written s s'))) \<and>
         (\<forall>p q. getPathForIndex p = getPathForIndex q \<longrightarrow> p = q)"
proof -
  let ?chunks = "mainChunks env s"
  let ?keep = "\<lambda>e. \<not> isReply (mfo env) e \<and> \<not> isLike (mfo env) e \<and> ''hidden'' \<notin> set (category e)"
  from assms(2) have s': "s' = add_objects (regenerated env s) s"
    using generateStreams_success [of env s] by simp
  have pages: "mainStream (written s s') = ?chunks"
    by (simp add: s' mainStream_regenerated [OF assms(3)])
  have filters: "filter hiddenFilter (filter (mainFilter env) es) = filter ?keep es" for es
    by (induction es) (auto simp add: hiddenFilter_def mainFilter_def list_ex_iff)
  have all: "concat ?chunks = sortByDateDesc (filter ?keep (getAll s))"
    using assms(1)
    by (simp only: mainChunks_def util_chunk_concat filters sortByDateDesc_filter)
  have len: "\<forall>c\<in>set ?chunks. length c \<le> entriesPerPage (config env)"
    using util_chunk_length by (auto simp: mainChunks_def)
  have dist: "distinct (getAll s) \<longrightarrow> distinct (concat ?chunks)"
    by (simp add: all sortByDateDesc_def)
  have stored: "\<forall>i<length ?chunks.
      objectAt (objects (store s')) (getPathForIndex (i + 1)) =
        Some \<lparr>Body = StreamPage (?chunks ! i) (i + 1) (length ?chunks), ContentType = ''text/html''\<rparr>"
    by (simp add: s' objectAt_append objectAt_regenerated [OF assms(3)])
  have keys: "\<forall>p. getPathForIndex p \<in> fst ` set (written s s') \<longleftrightarrow> 1 \<le> p \<and> p \<le> length ?chunks"
    by (simp only: s' written_add_objects main_keys_regenerated [OF assms(3)]) simp
  have inj: "\<forall>p q. getPathForIndex p = getPathForIndex q \<longrightarrow> p = q"
    using getPathForIndex_inj by blast
  have sorted: "sorted_wrt (\<lambda>a b. getTime (published b) \<le> getTime (published a)) (concat ?chunks)"
    by (simp only: all sortByDateDesc_sorted)
  have count: "mset (concat ?chunks) = filter_mset ?keep (mset (getAll s))"
    by (simp add: all sortByDateDesc_mset)
  from all count sorted dist len stored keys inj show ?thesis
    by (simp only: pages) blast
qed

text \<open>
  With one entry a page and five entries, of which one is hidden, one is a reply and
  one is a like, the two pages hold the latest of the other two and then the earliest:
  \<open>index\<close> holds the first page and \<open>index2\<close> the second.
\<close>

theorem main_stream_pagination_witness:
  "0 < entriesPerPage (config demo_env) \<and>
   generateStreams demo_env five_posts =
     (Inr (), add_objects (regenerated demo_env five_posts) five_posts) \<and>
   (\<forall>p q. path_join (util demo_env) ''replies'' (getPathForIndex p) \<noteq> getPathForIndex q) \<and>
   getAll five_posts =
     [post ''/a'' 10 [], post ''/b'' 20 [''hidden'', ''foo''], post ''/c'' 30 [''foo''],
      answer ''/r'' 40, liking ''/l'' 50] \<and>
   isReply (mfo demo_env) (answer ''/r'' 40) \<and> isLike (mfo demo_env) (liking ''/l'' 50) \<and>
   mainStream (written five_posts (add_objects (regenerated demo_env five_posts) five_posts)) =
     [[post ''/c'' 30 [''foo'']], [post ''/a'' 10 []]] \<and>
   sortByDateDesc
     (filter (\<lambda>e. \<not> isReply (mfo demo_env) e \<and> \<not> isLike (mfo demo_env) e \<and>
                  ''hidden'' \<notin> set (category e)) (getAll five_posts)) =
     [post ''/c'' 30 [''foo''], post ''/a'' 10 []] \<and>
   objectAt (objects (store (add_objects (regenerated demo_env five_posts) five_posts))) ''index'' =
     Some \<lparr>Body = StreamPage [post ''/c'' 30 [''foo'']] 1 2, ContentType = ''text/html''\<rparr> \<and>
   objectAt (objects (store (add_objects (regenerated demo_env five_posts) five_posts))) ''index2'' =
     Some \<lparr>Body = StreamPage [post ''/a'' 10 []] 2 2, ContentType = ''text/html''\<rparr>"
proof -
  let ?s' = "add_objects (regenerated demo_env five_posts) five_posts"
  let ?keep = "\<lambda>e. \<not> isReply (mfo demo_env) e \<and> \<not> isLike (mfo demo_env) e \<and>
                   ''hidden'' \<notin> set (category e)"
  have pos: "0 < entriesPerPage (config demo_env)"
    by (simp add: demo_env_def demo_config_def)
  have entries: "getAll five_posts =
     [post ''/a'' 10 [], post ''/b'' 20 [''hidden'', ''foo''], post ''/c'' 30 [''foo''],
      answer ''/r'' 40, liking ''/l'' 50]"
    by (simp add: getAll_def five_posts_def)
  have kinds: "isReply (mfo demo_env) (answer ''/r'' 40) \<and> isLike (mfo demo_env) (liking ''/l'' 50)"
    by (simp add: demo_env_def demo_mfo_def answer_def liking_def)
  have stream: "mainStream (written five_posts ?s') =
      [[post ''/c'' 30 [''foo'']], [post ''/a'' 10 []]]"
    by (simp add: five_stream)
  have keys: "getPathForIndex (0 + 1) = ''index''" "getPathForIndex (1 + 1) = ''index2''"
    by (simp_all add: getPathForIndex_def string_of_nat.simps digit_char_def)
  note run = main_stream_pagination [OF pos demo_regenerates [of five_posts] demo_reply_keys]
  from run have "concat (mainStream (written five_posts ?s')) =
      sortByDateDesc (filter ?keep (getAll five_posts))"
    by blast
  then have sorted: "sortByDateDesc (filter ?keep (getAll five_posts)) =
      [post ''/c'' 30 [''foo''], post ''/a'' 10 []]"
    by (simp add: five_stream)
  from run have at: "\<forall>i<length (mainStream (written five_posts ?s')).
      objectAt (objects (store ?s')) (getPathForIndex (i + 1)) =
        Some \<lparr>Body = StreamPage (mainStream (written five_posts ?s') ! i) (i + 1)
                       (length (mainStream (written five_posts ?s'))),
              ContentType = ''text/html''\<rparr>"
    by blast
  have first: "objectAt (objects (store ?s')) ''index'' =
      Some \<lparr>Body = StreamPage [post ''/c'' 30 [''foo'']] 1 2, ContentType = ''text/html''\<rparr>"
    using at [rule_format, of 0] by (simp only: stream keys) simp
  have second: "objectAt (objects (store ?s')) ''index2'' =
      Some \<lparr>Body = StreamPage [post ''/a'' 10 []] 2 2, ContentType = ''text/html''\<rparr>"
    using at [rule_format, of 1] by (simp only: stream keys) simp
  from pos entries kinds stream sorted first second show ?thesis
    by (simp only: demo_regenerates demo_reply_keys) simp
qed

subsection \<open>Hidden entries\<close>

text \<open>
  C4, as amended. An entry whose categories contain \<open>hidden\<close> is on no main-stream
  page and on no reply-stream page that a regeneration writes, whether the
  regeneration succeeds or not, and \<open>get\<close> returns it for the URL it is indexed
  under, before and after the regeneration.
\<close>

theorem hidden_excluded_from_streams:
  assumes "''hidden'' \<in> set (category e)" and "map_of (entries s) u = Some e"
  shows "(\<forall>p\<in>set (streamPages (written s (snd (generateStreams env s)))). e \<notin> set (snd p)) \<and>
         (\<forall>p\<in>set (replyPages (written s (snd (generateStreams env s)))). e \<notin> set (snd p)) \<and>
         get s u = Inr e \<and> get (snd (generateStreams env s)) u = Inr e"
proof -
  obtain ws where ws: "snd (generateStreams env s) = add_objects ws s"
    and sub: "set ws \<subseteq> set (regenerated env s)"
    using generateStreams_written by blast
  have hid: "\<not> hiddenFilter e"
    using assms(1) by (rule hidden_filtered)
  have main: "e \<notin> set c" if "c \<in> set (mainChunks env s)" for c
  proof -
    from that have "set c \<subseteq> set (filter hiddenFilter (filter (mainFilter env) (sortByDateDesc (getAll s))))"
      unfolding mainChunks_def by (rule chunks_in_filtered)
    with hid show ?thesis by auto
  qed
  have reply: "e \<notin> set c" if "c \<in> set (replyChunks env s)" for c
  proof -
    from that have "set c \<subseteq> set (filter hiddenFilter (filter (replyFilter env) (sortByDateDesc (getAll s))))"
      unfolding replyChunks_def by (rule chunks_in_filtered)
    with hid show ?thesis by auto
  qed
  have "\<forall>p\<in>set (streamPages (regenerated env s)). e \<notin> set (snd p)"
    using main by (auto simp: streamPages_regenerated)
  moreover have "set (streamPages ws) \<subseteq> set (streamPages (regenerated env s))"
    using sub by (rule streamPages_subset)
  ultimately have a: "\<forall>p\<in>set (streamPages ws). e \<notin> set (snd p)"
    by blast
  have "\<forall>p\<in>set (replyPages (regenerated env s)). e \<notin> set (snd p)"
    using reply by (auto simp: replyPages_regenerated)
  moreover have "set (replyPages ws) \<subseteq> set (replyPages (regenerated env s))"
    using sub by (rule replyPages_subset)
  ultimately have b: "\<forall>p\<in>set (replyPages ws). e \<notin> set (snd p)"
    by blast
  have c: "get s u = Inr e"
    using assms(2) by (simp add: get_def)
  show ?thesis
    using a b c by (simp add: ws get_def)
qed

text \<open>
  The hidden entry of the three is on no stream page, and \<open>get\<close> returns it.
\<close>

theorem hidden_excluded_from_streams_witness:
  "''hidden'' \<in> set (category (post ''/b'' 20 [''hidden'', ''foo''])) \<and>
   map_of (entries three_posts) ''http://example.com/b'' = Some (post ''/b'' 20 [''hidden'', ''foo'']) \<and>
   post ''/b'' 20 [''hidden'', ''foo''] \<notin>
     set (concat (map snd (streamPages (written three_posts (snd (generateStreams demo_env three_posts)))))) \<and>
   get three_posts ''http://example.com/b'' = Inr (post ''/b'' 20 [''hidden'', ''foo''])"
proof -
  have hid: "''hidden'' \<in> set (category (post ''/b'' 20 [''hidden'', ''foo'']))"
    by (simp add: post_def)
  have idx: "map_of (entries three_posts) ''http://example.com/b'' = Some (post ''/b'' 20 [''hidden'', ''foo''])"
    by (simp add: three_posts_def)
  from hidden_excluded_from_streams [OF hid idx, of demo_env] hid idx
  show ?thesis
    by auto
qed

text \<open>
  C4 as stated fails: the tag pages are built from all the entries, with no hidden
  filter. The hidden entry tagged \<open>foo\<close> is listed on the page of that tag.
\<close>

theorem hidden_in_tag_index:
  "''hidden'' \<in> set (category (post ''/b'' 20 [''hidden'', ''foo''])) \<and>
   map_of (entries three_posts) ''http://example.com/b'' = Some (post ''/b'' 20 [''hidden'', ''foo'']) \<and>
   (''/tags/foo'', [post ''/c'' 30 [''foo''], post ''/b'' 20 [''hidden'', ''foo'']])
     \<in> set (indexPages (written three_posts (snd (generateStreams demo_env three_posts))))"
  apply (simp add: demo_regenerates indexPages_regenerated three_sorted)
  apply (simp add: post_def three_posts_def util_unique_def util_flatten_def getPathForTag_def demo_env_def demo_util_def lower_def)
  done

subsection \<open>Slugs of named entries\<close>

text \<open>
  C5, as amended. With a name, and a store whose \<open>exists\<close> does not fail, \<open>getSlug\<close>
  tries \<open>prefix/kebab-case(name)\<close> first, then the same followed by 1, by 2, by 3 and
  so on with no hyphen, and returns the first of them that the store does not hold,
  for the numbers up to \<open>2^53\<close> that the counter of the loop reaches.
  On 2 March 2024, for a name whose kebab case is \<open>hello\<close>, the first two candidates
  are \<open>/2024/3/2/hello\<close> and \<open>/2024/3/2/hello1\<close>.
\<close>

theorem getSlug_named_probes:
  assumes "\<forall>key. \<not> exists_fails (net env) key"
    and "k \<le> js_limit"
    and "\<forall>j<k. named env nm d j \<in> keysOf p"
    and "named env nm d k \<notin> keysOf p"
  shows "getSlug env (Some nm) d p = Some (Inr (named env nm d k)) \<and>
         (getFullYear d = 2024 \<and> getMonth d = 2 \<and> getDate d = 2 \<and>
          kebabCase (util env) nm = ''hello'' \<longrightarrow>
            named env nm d 0 = ''/2024/3/2/hello'' \<and> named env nm d 1 = ''/2024/3/2/hello1'')"
proof -
  let ?prefix = "datepart d @ ''/'' @ kebabCase (util env) nm"
  have scenario: "named env nm d 0 = ''/2024/3/2/hello'' \<and> named env nm d 1 = ''/2024/3/2/hello1''"
    if "getFullYear d = 2024 \<and> getMonth d = 2 \<and> getDate d = 2 \<and>
        kebabCase (util env) nm = ''hello''"
    using that by (simp add: named_def datepart_def string_of_nat.simps digit_char_def)
  have same: "candidate Blank ?prefix j = named env nm d j" if "j \<le> k" for j
  proof -
    from that assms(2) have "min j js_limit = j" by simp
    then show ?thesis
      by (simp add: candidate_Blank named_def)
  qed
  have "getNextAvailable (pub_exists env p) Blank ?prefix = Some (Inr (candidate Blank ?prefix k))"
  proof (rule getNextAvailable_first_gap)
    fix j assume "j < k"
    with assms(3) have "named env nm d j \<in> keysOf p" by blast
    moreover from \<open>j < k\<close> have "candidate Blank ?prefix j = named env nm d j"
      by (intro same) simp
    ultimately show "pub_exists env p (candidate Blank ?prefix j) = Inr True"
      using assms(1) by (simp add: pub_exists_sound)
  next
    have "candidate Blank ?prefix k = named env nm d k"
      by (intro same) simp
    with assms(1,4) show "pub_exists env p (candidate Blank ?prefix k) = Inr False"
      by (simp add: pub_exists_sound)
  qed
  then have "getSlug env (Some nm) d p = Some (Inr (named env nm d k))"
    by (simp only: getSlug_def option.case same [of k, OF order_refl])
  with scenario show ?thesis by blast
qed

text \<open>
  On 2 March 2024, with \<open>/2024/3/2/hello\<close> in the store, the slug of a post named
  Hello is \<open>/2024/3/2/hello1\<close>.
\<close>

theorem getSlug_named_probes_witness:
  "(\<forall>key. \<not> exists_fails (net demo_env) key) \<and>
   (1::nat) \<le> js_limit \<and>
   named demo_env ''Hello'' (march2 20) 0 \<in> keysOf (store hello_site) \<and>
   named demo_env ''Hello'' (march2 20) 1 \<notin> keysOf (store hello_site) \<and>
   getSlug demo_env (Some ''Hello'') (march2 20) (store hello_site) = Some (Inr ''/2024/3/2/hello1'')"
  using getSlug_named_probes [of demo_env "Suc 0" "''Hello''" "march2 20" "store hello_site"]
  by (simp add: named_hello keysOf_def hello_site_def page_def)

text \<open>
  C5 as stated fails: two publishes in a row of a post named Hello on 2 March 2024
  give the entries \<open>/2024/3/2/hello\<close> and \<open>/2024/3/2/hello1\<close>, not
  \<open>/2024/3/2/hello-2\<close>.
\<close>

theorem second_hello_is_hello1:
  "urlOf first_publish = Some (Inr ''http://example.com/2024/3/2/hello'') \<and>
   urlOf second_publish = Some (Inr ''http://example.com/2024/3/2/hello1'') \<and>
   urlOf second_publish \<noteq> Some (Inr ''http://example.com/2024/3/2/hello-2'')"
proof -
  have "syndicateTo (hello_entry ''/2024/3/2/hello1'' 20) = Some []"
    by (simp add: hello_entry_def)
  moreover have "syndicate (net demo_env) (hello_entry ''/2024/3/2/hello1'' 20) = Inr []"
    by (simp add: demo_env_def demo_net_def)
  ultimately obtain s2 where "finish demo_env (hello_entry ''/2024/3/2/hello1'' 20) hello_site =
      (Inr (hello_entry ''/2024/3/2/hello1'' 20), s2)"
    by (simp add: finish_syndicated)
  then have "urlOf second_publish = Some (Inr (url (hello_entry ''/2024/3/2/hello1'' 20)))"
    by (simp add: second_publish_def hello_published after_def publish_def
        hello_prepare [OF hello_slug_taken] urlOf_def)
  then have b: "urlOf second_publish = Some (Inr ''http://example.com/2024/3/2/hello1'')"
    by (simp add: hello_entry_def)
  have a: "urlOf first_publish = Some (Inr ''http://example.com/2024/3/2/hello'')"
    by (simp add: hello_published urlOf_def hello_entry_def)
  show ?thesis
    by (simp add: a b)
qed

subsection \<open>Scan\<close>

text \<open>
  C6. After a scan that succeeds, every entry of the index is indexed under its own URL
  and comes from a key of the store, outside the reserved prefixes, whose object is
  HTML, parses to that entry, and has a canonical URL equal to the request URL, as it
  is or with \<open>.html\<close> appended. A scan that fails leaves the site as it was, so no
  partial index is seen; a scan never writes to the store; the new index does not
  depend on the old one; and when \<open>list\<close> and \<open>get\<close> do not fail the scan succeeds,
  whatever the parser rejects.
\<close>

theorem scan_admits_only_canonical:
  "(\<forall>u e. fst (scan env s) = Inr () \<and> (u, e) \<in> set (entries (snd (scan env s))) \<longrightarrow>
      u = url e \<and> (\<exists>key\<in>set (map fst (objects (store s))). \<not> reserved key \<and> admitted env (store s) key e)) \<and>
   (fst (scan env s) \<noteq> Inr () \<longrightarrow> snd (scan env s) = s) \<and>
   store (snd (scan env s)) = store s \<and>
   (fst (scan env s) = Inr () \<longrightarrow>
      entries (snd (scan env s)) = entries (snd (scan env (s\<lparr>entries := []\<rparr>)))) \<and>
   (\<not> list_fails (net env) \<and> (\<forall>key. \<not> get_fails (net env) key) \<longrightarrow> fst (scan env s) = Inr ())"
proof (cases "pub_list env (store s)")
  case (Inl err)
  then have "list_fails (net env)"
    by (simp add: pub_list_def split: if_splits)
  with Inl show ?thesis
    by (simp add: scan_def)
next
  case (Inr keys)
  then have keys: "keys = remdups (map fst (objects (store s)))" and nofail: "\<not> list_fails (net env)"
    by (auto simp add: pub_list_def split: if_splits)
  let ?ks = "filter (\<lambda>k. \<not> reserved k) keys"
  obtain r acc where run: "util_map (scanKey env (store s)) ?ks [] = (r, acc)"
    by (cases "util_map (scanKey env (store s)) ?ks []")
  have admitted: "u = url e \<and> (\<exists>key\<in>set (map fst (objects (store s))). \<not> reserved key \<and> admitted env (store s) key e)"
    if "(u, e) \<in> set acc" for u e
  proof -
    from that run have "(u, e) \<in> set (snd (util_map (scanKey env (store s)) ?ks []))" by simp
    from util_map_scanKey_acc [OF this] show ?thesis
      by (auto simp: keys)
  qed
  have total: "\<exists>rs. r = Inr rs" if "\<forall>key. \<not> get_fails (net env) key"
  proof -
    have "\<forall>key\<in>set ?ks. \<exists>ob. pub_get env (store s) key = Inr ob"
      using that pub_get_listed [of env _ "store s"] by (auto simp: keys)
    from util_map_scanKey_ok [OF this, of "[]"] run show ?thesis by simp
  qed
  show ?thesis
  proof (cases r)
    case (Inl err)
    with Inr run total show ?thesis
      by (auto simp add: scan_def)
  next
    case ok: (Inr rs)
    with Inr run admitted show ?thesis
      by (auto simp add: scan_def)
  qed
qed

text \<open>
  A store with an entry page, a page moved away from its canonical URL, a page that is
  no entry, a page under \<open>.html\<close>, a picture and a stream page: the scan keeps the
  entry page and the \<open>.html\<close> page, and the entry the index had before is gone.
\<close>

theorem scan_admits_only_canonical_witness:
  "fst (scan demo_env scanned) = Inr () \<and>
   store (snd (scan demo_env scanned)) = store scanned \<and>
   entries (snd (scan demo_env scanned)) =
     [(''http://example.com/2024/3/2/hello'', hello_entry ''/2024/3/2/hello'' 10),
      (''http://example.com/page'', hello_entry ''/page'' 7)] \<and>
   admitted demo_env (store scanned) ''/page.html'' (hello_entry ''/page'' 7) \<and>
   \<not> admitted demo_env (store scanned) ''/moved'' (hello_entry ''/elsewhere'' 5)"
proof -
  have adm: "admitted demo_env (store scanned) ''/page.html'' (hello_entry ''/page'' 7)"
    by code_simp
  have nadm: "\<not> admitted demo_env (store scanned) ''/moved'' (hello_entry ''/elsewhere'' 5)"
    by code_simp
  from scan_admits_only_canonical [of demo_env scanned]
  have "fst (scan demo_env scanned) = Inr () \<and> store (snd (scan demo_env scanned)) = store scanned"
    by (simp add: demo_net_def)
  with adm nadm show ?thesis
    by (simp add: scanned_index)
qed

subsection \<open>Best-effort calls\<close>

text \<open>
  C7, as amended. Whatever the oEmbed lookup and the delivery of webmentions do,
  \<open>publish\<close> returns an entry when the store, the resolution of the references, the
  parser and the syndication do not fail; and \<open>sendWebmentionsFor\<close> never fails. The
  store holds fewer than \<open>2^53\<close> keys, so that the slug loop finds a free candidate
  before its counter stops.
\<close>

theorem best_effort_failures_are_caught:
  assumes "\<forall>k. \<not> exists_fails (net env) k" and "card (keysOf (store s)) < js_limit"
    and "\<forall>k. \<not> put_fails (net env) k" and "\<not> commit_fails (net env)"
    and "\<forall>u\<in>set_option (m_replyTo m) \<union> set_option (m_likeOf m) \<union> set_option (m_repostOf m).
           \<exists>r. getEntry (mfo env) u strategies = Inr r"
    and "\<forall>e u. \<exists>e'. getEntryFromHtml (mfo env) (renderEntry e) u = Inr (Some e')"
    and "\<forall>e. syndicateTo e \<noteq> None \<longrightarrow> (\<exists>l. syndicate (net env) e = Inr l)"
  shows "(\<exists>e s'. publish (env\<lparr>net := (net env)\<lparr>oembed := lookup, sendWebmention := deliver\<rparr>\<rparr>)
                    now m s = Some (Inr e, s')) \<and>
         sendWebmentionsFor (env\<lparr>net := (net env)\<lparr>sendWebmention := deliver\<rparr>\<rparr>) e0 s0 = (Inr (), s0)"
proof -
  have "\<exists>e s'. publish (env\<lparr>net := (net env)\<lparr>oembed := lookup, sendWebmention := deliver\<rparr>\<rparr>)
                    now m s = Some (Inr e, s')"
    by (rule publish_ok) (simp_all add: assms)
  then show ?thesis
    by (simp add: sendWebmentionsFor_ok)
qed

text \<open>
  A reply to a page elsewhere is published although the oEmbed lookup of that page and
  the webmention to it both fail.
\<close>

theorem best_effort_failures_are_caught_witness:
  "oembed (net (web_env\<lparr>net := (net web_env)\<lparr>oembed := (\<lambda>l. Inl (Error ''oembed'')),
       sendWebmention := (\<lambda>s t. Inl (Error ''webmention''))\<rparr>\<rparr>)) ''http://other.example/post'' =
     Inl (Error ''oembed'') \<and>
   sendWebmention (net (web_env\<lparr>net := (net web_env)\<lparr>oembed := (\<lambda>l. Inl (Error ''oembed'')),
       sendWebmention := (\<lambda>s t. Inl (Error ''webmention''))\<rparr>\<rparr>)) ''http://example.com/2024/3/2/1''
       ''http://other.example/post'' = Inl (Error ''webmention'') \<and>
   card (keysOf (store empty_site)) < js_limit \<and>
   (\<exists>e s'. publish (web_env\<lparr>net := (net web_env)\<lparr>oembed := (\<lambda>l. Inl (Error ''oembed'')),
       sendWebmention := (\<lambda>s t. Inl (Error ''webmention''))\<rparr>\<rparr>) (march2 10) reply empty_site =
       Some (Inr e, s'))"
proof -
  have "\<exists>e s'. publish (web_env\<lparr>net := (net web_env)\<lparr>oembed := (\<lambda>l. Inl (Error ''oembed'')),
       sendWebmention := (\<lambda>s t. Inl (Error ''webmention''))\<rparr>\<rparr>) (march2 10) reply empty_site =
       Some (Inr e, s')"
    using best_effort_failures_are_caught [where env = web_env and m = reply
        and lookup = "\<lambda>l. Inl (Error ''oembed'')"
        and deliver = "\<lambda>s t. Inl (Error ''webmention'')"
        and now = "march2 10" and s = empty_site]
    by (simp add: demo_net_def reply_def hello_def web_env_def demo_env_def demo_mfo_def
        demo_parse_def renderEntry_def empty_keys)
  then show ?thesis
    by (simp add: empty_keys)
qed

text \<open>
  C7 as stated fails for the syndication: the call of \<open>posse.syndicate\<close> stands in no
  \<open>try\<close>, so its failure fails \<open>publish\<close>, after the entry was stored and indexed and
  before the commit.
\<close>

theorem posse_failure_fails_publish:
  "syndicate (net posse_down) tweet_entry = Inl (Error ''posse'') \<and>
   map_option fst tweet_publish = Some (Inl (Error ''posse'')) \<and>
   entries (after tweet_publish) = [(''http://example.com/2024/3/2/hello'', tweet_entry)] \<and>
   commits (store (after tweet_publish)) = []"
proof -
  have nofail: "\<forall>k. \<not> put_fails (net posse_down) k"
    by (simp add: posse_down_def demo_net_def)
  have posse: "syndicate (net posse_down) tweet_entry = Inl (Error ''posse'')"
    by (simp add: posse_down_def)
  have req: "syndicateTo tweet_entry = Some [''twitter'']"
    by (simp add: tweet_entry_def)
  let ?s1 = "add_objects (regenerated posse_down (stored posse_down tweet_entry empty_site))
               (stored posse_down tweet_entry empty_site)"
  have "finish posse_down tweet_entry empty_site = (Inl (Error ''posse''), ?s1)"
    by (simp add: finish_def await_def update_ok [OF nofail] syndicateStep_def req posse lift_def)
  then have tp: "tweet_publish = Some (Inl (Error ''posse''), ?s1)"
    by (simp add: tweet_publish_def publish_def tweet_prepare)
  have "entries ?s1 = [(''http://example.com/2024/3/2/hello'', tweet_entry)] \<and>
        commits (store ?s1) = []"
    by (simp add: variants stored_def empty_site_def tweet_entry_def demo_mfo_def)
  then show ?thesis
    by (simp add: tp after_def posse)
qed

subsection \<open>The articles page\<close>

text \<open>
  C8. A regeneration that succeeds writes one index page at \<open>/articles\<close>, and it
  lists the entries of the index that satisfy the article filter, latest first: an
  entry is on it exactly when it is in the index and is an article, hidden or not.
\<close>

theorem articles_page_not_hidden_filtered:
  assumes "generateStreams env s = (Inr (), s')"
  shows "map snd (filter (\<lambda>p. fst p = ''/articles'') (indexPages (written s s'))) =
           [filter (articleFilter env) (sortByDateDesc (getAll s))] \<and>
         set (filter (articleFilter env) (sortByDateDesc (getAll s))) =
           {e. e \<in> set (getAll s) \<and> articleFilter env e}"
proof -
  from assms have s': "s' = add_objects (regenerated env s) s"
    using generateStreams_success [of env s] by simp
  have "filter (\<lambda>p. fst p = ''/articles'')
          (map (\<lambda>tag. (getPathForTag env tag, f tag)) tags) = []" for f :: "string \<Rightarrow> entry list" and tags
    by (induction tags) (simp_all add: getPathForTag_def)
  then show ?thesis
    by (auto simp add: s' indexPages_regenerated articleFilter_def [abs_def] sortByDateDesc_set)
qed

text \<open>
  All three entries are articles, and the page lists the three, the hidden one
  included.
\<close>

theorem articles_page_not_hidden_filtered_witness:
  "generateStreams demo_env three_posts =
     (Inr (), add_objects (regenerated demo_env three_posts) three_posts) \<and>
   map snd (filter (\<lambda>p. fst p = ''/articles'')
     (indexPages (written three_posts (add_objects (regenerated demo_env three_posts) three_posts)))) =
     [[post ''/c'' 30 [''foo''], post ''/b'' 20 [''hidden'', ''foo''], post ''/a'' 10 []]] \<and>
   \<not> hiddenFilter (post ''/b'' 20 [''hidden'', ''foo''])"
proof -
  have art: "articleFilter demo_env (post slug t cats)" for slug t cats
    by (simp add: articleFilter_def demo_env_def demo_mfo_def post_def)
  have hid: "\<not> hiddenFilter (post ''/b'' 20 [''hidden'', ''foo''])"
    by (simp add: hiddenFilter_def post_def)
  from articles_page_not_hidden_filtered [OF demo_regenerates [of three_posts]]
  show ?thesis
    by (simp add: demo_regenerates three_sorted art hid)
qed

subsection \<open>Termination of the probing loop\<close>

text \<open>
  C10, as amended. Let \<open>present\<close> be what the store answers to \<open>exists\<close>, and let the
  loop start from the empty string or from a number up to \<open>2^53\<close>. When some candidate
  of the probed sequence is not present, the loop returns the first such candidate, a
  key the store reports as not existing. When every candidate is present, the loop
  does not return. The counter stops at \<open>2^53\<close>: after \<open>span n\<close> increments the
  candidates repeat, and the candidates up to there are pairwise distinct. So a free
  candidate, when there is one, is among the first \<open>span n + 1\<close>, and a store that
  holds no more than \<open>span n\<close> keys has one.
\<close>

theorem getNextAvailable_terminates:
  assumes "exact n"
  shows "((\<exists>k. \<not> present (candidate n prefix k)) \<longrightarrow>
            (\<exists>k. getNextAvailable (\<lambda>key. Inr (present key)) n prefix =
                   Some (Inr (candidate n prefix k)) \<and>
                 k \<le> span n \<and> \<not> present (candidate n prefix k) \<and>
                 (\<forall>j<k. present (candidate n prefix j)))) \<and>
         ((\<forall>k. present (candidate n prefix k)) \<longrightarrow>
            getNextAvailable (\<lambda>key. Inr (present key)) n prefix = None) \<and>
         (\<forall>k. candidate n prefix (span n + k) = candidate n prefix (span n)) \<and>
         (\<forall>i j. i \<le> span n \<and> j \<le> span n \<and> candidate n prefix i = candidate n prefix j \<longrightarrow> i = j) \<and>
         (finite {key. present key} \<and> card {key. present key} \<le> span n \<longrightarrow>
            (\<exists>key. getNextAvailable (\<lambda>key. Inr (present key)) n prefix = Some (Inr key) \<and>
                   \<not> present key))"
proof -
  let ?ex = "\<lambda>key. Inr (present key) :: error + bool"
  have stops: "candidate n prefix (span n + k) = candidate n prefix (span n)" for k
    by (rule candidate_stops [OF assms]) simp
  have gap: "\<exists>k. getNextAvailable ?ex n prefix = Some (Inr (candidate n prefix k)) \<and>
           k \<le> span n \<and> \<not> present (candidate n prefix k) \<and>
           (\<forall>j<k. present (candidate n prefix j))"
    if "\<exists>k. \<not> present (candidate n prefix k)"
  proof -
    from that obtain k0 where "\<not> present (candidate n prefix k0)" by blast
    from first_gap_exists [of present n prefix k0, OF this] obtain i
      where before: "\<forall>j<i. present (candidate n prefix j)"
        and here: "\<not> present (candidate n prefix i)" by blast
    have "i \<le> span n"
    proof (rule ccontr)
      assume "\<not> i \<le> span n"
      then have "span n < i" and "span n \<le> i" by simp_all
      from before \<open>span n < i\<close> have "present (candidate n prefix (span n))" by blast
      with candidate_stops [OF assms \<open>span n \<le> i\<close>, of prefix] here show False by simp
    qed
    moreover have "getNextAvailable ?ex n prefix = Some (Inr (candidate n prefix i))"
      by (rule getNextAvailable_first_gap) (simp_all add: before here)
    ultimately show ?thesis using before here by blast
  qed
  have loop: "getNextAvailable ?ex n prefix = None" if "\<forall>k. present (candidate n prefix k)"
    by (rule getNextAvailable_diverges) (simp add: that)
  have inj: "i = j"
    if "i \<le> span n \<and> j \<le> span n \<and> candidate n prefix i = candidate n prefix j" for i j
    using that candidate_inj [OF assms, of i j prefix] by blast
  have few: "\<exists>key. getNextAvailable ?ex n prefix = Some (Inr key) \<and> \<not> present key"
    if "finite {key. present key} \<and> card {key. present key} \<le> span n"
  proof -
    from that few_keys_leave_gap [OF assms, of "{key. present key}" prefix]
    have "\<exists>k. \<not> present (candidate n prefix k)" by auto
    from gap [OF this] show ?thesis by blast
  qed
  from gap loop stops inj few show ?thesis by blast
qed

text \<open>
  From the empty string, with \<open>/a\<close> and \<open>/a1\<close> present, the loop returns \<open>/a2\<close>; with
  every key present it does not return.
\<close>

theorem getNextAvailable_terminates_witness:
  "exact Blank \<and>
   finite {key. key \<in> {''/a'', ''/a1''}} \<and> card {key. key \<in> {''/a'', ''/a1''}} \<le> span Blank \<and>
   getNextAvailable (\<lambda>key. Inr (key \<in> {''/a'', ''/a1''})) Blank ''/a'' = Some (Inr ''/a2'') \<and>
   getNextAvailable (\<lambda>key. Inr True) Blank ''/a'' = None"
proof -
  let ?present = "\<lambda>key. key \<in> {''/a'', ''/a1''}"
  have c0: "candidate Blank ''/a'' 0 = ''/a''"
    and c1: "candidate Blank ''/a'' (Suc 0) = ''/a1''"
    and c2: "candidate Blank ''/a'' (Suc (Suc 0)) = ''/a2''"
    by (simp_all add: candidate_Blank string_of_nat.simps digit_char_def js_limit_def)
  have "{key. ?present key} = {''/a'', ''/a1''}"
    by auto
  then have small: "card {key. ?present key} \<le> span Blank"
    by (simp add: js_limit_def)
  have "\<not> ?present (candidate Blank ''/a'' (Suc (Suc 0)))"
    by (simp add: c2)
  then have "\<exists>k. \<not> ?present (candidate Blank ''/a'' k)" by blast
  with getNextAvailable_terminates [of Blank ?present "''/a''"]
  obtain k where res: "getNextAvailable (\<lambda>key. Inr (?present key)) Blank ''/a'' =
        Some (Inr (candidate Blank ''/a'' k))"
    and here: "\<not> ?present (candidate Blank ''/a'' k)"
    and before: "\<forall>j<k. ?present (candidate Blank ''/a'' j)"
    by auto
  have "k \<noteq> 0"
  proof
    assume "k = 0"
    with here c0 show False by simp
  qed
  moreover have "k \<noteq> Suc 0"
  proof
    assume "k = Suc 0"
    with here c1 show False by simp
  qed
  moreover have "\<not> Suc (Suc 0) < k"
  proof
    assume "Suc (Suc 0) < k"
    with before have "?present (candidate Blank ''/a'' (Suc (Suc 0)))" by blast
    then show False by (simp add: c2)
  qed
  ultimately have "k = Suc (Suc 0)" by arith
  with res have a: "getNextAvailable (\<lambda>key. Inr (?present key)) Blank ''/a'' = Some (Inr ''/a2'')"
    by (simp add: c2)
  from getNextAvailable_terminates [of Blank "\<lambda>key. True" "''/a''"]
  have b: "getNextAvailable (\<lambda>key. Inr True) Blank ''/a'' = None"
    by simp
  from a b small show ?thesis by simp
qed

text \<open>
  C10 as stated fails where it takes a store with finitely many keys for a store with
  a free candidate. From the counter \<open>2^53\<close> every candidate is the prefix followed by
  9007199254740992. A store that holds that one key is finite and has no free
  candidate, and the loop does not return.
\<close>

theorem finite_store_without_free_candidate:
  "exact (Num 9007199254740992) \<and>
   finite {key. key = ''/a9007199254740992''} \<and>
   (\<forall>k. candidate (Num 9007199254740992) ''/a'' k = ''/a9007199254740992'') \<and>
   getNextAvailable (\<lambda>key. Inr (key = ''/a9007199254740992'')) (Num 9007199254740992) ''/a'' = None"
proof -
  have printed: "string_of_nat 9007199254740992 = ''9007199254740992''"
    by (simp add: string_of_nat.simps digit_char_def)
  have all: "candidate (Num 9007199254740992) ''/a'' k = ''/a9007199254740992''" for k
    using candidate_Num [of 9007199254740992 "''/a''" k]
    by (simp add: js_limit_def printed)
  have "getNextAvailable (\<lambda>key. Inr (key = ''/a9007199254740992'')) (Num 9007199254740992) ''/a'' = None"
    by (rule getNextAvailable_diverges) (simp add: all)
  with all show ?thesis
    by (simp add: js_limit_def)
qed

end
